theory Spec2Isabelle
  imports Main
begin

section \<open>Python strings and \<open>os.path.splitext\<close>\<close>

text \<open>
  A Python \<open>str\<close> is modelled as a HOL \<open>string\<close>, one \<open>char\<close> per character. HOL
  characters are the code points 0 to 255; on that range the class \<open>\d\<close> of the
  \<open>re\<close> module is exactly the ten ASCII digits.
\<close>

definition is_digit :: "char \<Rightarrow> bool" where
  "is_digit c = (c \<in> set ''0123456789'')"

text \<open>\<open>s.rfind(c)\<close>: the index of the last occurrence of \<open>c\<close>, or \<open>-1\<close>.\<close>

definition rfind :: "char \<Rightarrow> string \<Rightarrow> int" where
  "rfind c s =
     (if c \<in> set s
      then int (length s) - 1 - int (length (takeWhile (\<lambda>x. x \<noteq> c) (rev s)))
      else - 1)"

text \<open>
  \<open>posixpath.splitext\<close> (\<open>genericpath._splitext\<close> with separator \<open>/\<close> and no alternative
  separator): the extension starts at the last dot of the last path component, unless
  only dots precede that dot in the component.
  \<^verbatim>\<open>
    sepIndex = p.rfind(sep)
    dotIndex = p.rfind(extsep)
    if dotIndex > sepIndex:
        filenameIndex = sepIndex + 1
        while filenameIndex < dotIndex:
            if p[filenameIndex:filenameIndex+1] != extsep:
                return p[:dotIndex], p[dotIndex:]
            filenameIndex += 1
    return p, p[:0]
  \<close>
\<close>

definition splitext :: "string \<Rightarrow> string \<times> string" where
  "splitext p =
     (let sepIndex = rfind CHR ''/'' p;
          dotIndex = rfind CHR ''.'' p
      in if dotIndex > sepIndex \<and>
            list_ex (\<lambda>x. x \<noteq> CHR ''.'')
              (take (nat (dotIndex - (sepIndex + 1))) (drop (nat (sepIndex + 1)) p))
         then (take (nat dotIndex) p, drop (nat dotIndex) p)
         else (p, []))"

text \<open>\<open>s.replace(c, '')\<close> and \<open>s.replace(c, d)\<close> for single characters.\<close>

definition remove_char :: "char \<Rightarrow> string \<Rightarrow> string" where
  "remove_char c s = filter (\<lambda>x. x \<noteq> c) s"

definition replace_char :: "char \<Rightarrow> char \<Rightarrow> string \<Rightarrow> string" where
  "replace_char c d s = map (\<lambda>x. if x = c then d else x) s"


section \<open>The fragment of \<open>re\<close> used by the two patterns\<close>

text \<open>
  Both patterns are sequences of single-character atoms (a literal, a negated
  one-character class, \<open>\d\<close>) carrying at most one greedy quantifier, of capture groups
  around such sequences, and of \<open>$\<close>. The backtracking matcher of \<open>re\<close> is modelled by the
  list of all ways to match, in the order in which the engine tries them (greedy
  alternatives first); \<open>re.match\<close> returns the first.
\<close>

datatype cclass = Lit char | NotLit char | Digit

datatype quant = Once | Opt | Star | Rep1

datatype piece = Atom cclass quant | Group "(cclass \<times> quant) list" | EndAnchor

fun in_class :: "cclass \<Rightarrow> char \<Rightarrow> bool" where
  "in_class (Lit c) x = (x = c)"
| "in_class (NotLit c) x = (x \<noteq> c)"
| "in_class Digit x = is_digit x"

text \<open>The remainders left by \<open>a*\<close>: consume one more character first, else stop here.\<close>

fun star_rests :: "cclass \<Rightarrow> string \<Rightarrow> string list" where
  "star_rests c [] = [[]]"
| "star_rests c (x # xs) =
     (if in_class c x then star_rests c xs @ [x # xs] else [x # xs])"

fun atom_rests :: "cclass \<Rightarrow> quant \<Rightarrow> string \<Rightarrow> string list" where
  "atom_rests c Once s =
     (case s of [] \<Rightarrow> [] | x # xs \<Rightarrow> if in_class c x then [xs] else [])"
| "atom_rests c Opt s =
     (case s of [] \<Rightarrow> [s] | x # xs \<Rightarrow> if in_class c x then [xs, s] else [s])"
| "atom_rests c Star s = star_rests c s"
| "atom_rests c Rep1 s =
     (case s of [] \<Rightarrow> [] | x # xs \<Rightarrow> if in_class c x then star_rests c xs else [])"

fun atoms_rests :: "(cclass \<times> quant) list \<Rightarrow> string \<Rightarrow> string list" where
  "atoms_rests [] s = [s]"
| "atoms_rests ((c, q) # as) s = concat (map (atoms_rests as) (atom_rests c q s))"

text \<open>
  \<open>match_pieces ps s caps\<close>: the capture lists of all successful matches of \<open>ps\<close> at the
  start of \<open>s\<close>, in the engine's order. A group records the text it consumed. \<open>$\<close>
  (without \<open>re.MULTILINE\<close>) holds at the end of the string and just before a newline
  that ends the string.
\<close>

fun match_pieces :: "piece list \<Rightarrow> string \<Rightarrow> string list \<Rightarrow> string list list" where
  "match_pieces [] s caps = [caps]"
| "match_pieces (Atom c q # ps) s caps =
     concat (map (\<lambda>r. match_pieces ps r caps) (atom_rests c q s))"
| "match_pieces (Group as # ps) s caps =
     concat (map (\<lambda>r. match_pieces ps r (caps @ [take (length s - length r) s]))
                 (atoms_rests as s))"
| "match_pieces (EndAnchor # ps) s caps =
     (if s = [] \<or> s = [CHR 0x0A] then match_pieces ps s caps else [])"

text \<open>
  \<open>re.match(pattern, s)\<close>: \<open>None\<close>, or the groups of the first match. \<open>re.match\<close> only
  tries position 0, where a leading \<open>^\<close> always holds, so the \<open>^\<close> of both patterns is
  not a piece.
\<close>

definition re_match :: "piece list \<Rightarrow> string \<Rightarrow> string list option" where
  "re_match pat s = (case match_pieces pat s [] of [] \<Rightarrow> None | m # _ \<Rightarrow> Some m)"

definition lits :: "string \<Rightarrow> piece list" where
  "lits s = map (\<lambda>c. Atom (Lit c) Once) s"

text \<open>\<open>-?\d+\.?\d*\<close>\<close>

definition number_atoms :: "(cclass \<times> quant) list" where
  "number_atoms = [(Lit CHR ''-'', Opt), (Digit, Rep1), (Lit CHR ''.'', Opt), (Digit, Star)]"

text \<open>\<open>^([^,]+),(-?\d+\.?\d*),(-?\d+\.?\d*),\<close>\<close>

definition pattern1 :: "piece list" where
  "pattern1 =
     [Group [(NotLit CHR '','', Rep1)], Atom (Lit CHR '','') Once,
      Group number_atoms, Atom (Lit CHR '','') Once,
      Group number_atoms, Atom (Lit CHR '','') Once]"

text \<open>\<open>^satellite_(-?\d+\.?\d*)_(-?\d+\.?\d*)$\<close>\<close>

definition pattern2 :: "piece list" where
  "pattern2 =
     lits ''satellite_'' @
     [Group number_atoms, Atom (Lit CHR ''_'') Once, Group number_atoms, EndAnchor]"

text \<open>
  The language the specification gives for \<open><lat>\<close> and \<open><lon>\<close>: an optional \<open>-\<close>, one
  or more digits, an optional \<open>.\<close>, zero or more digits.
\<close>

definition is_decimal :: "string \<Rightarrow> bool" where
  "is_decimal s =
     (let u = (case s of [] \<Rightarrow> [] | c # r \<Rightarrow> if c = CHR ''-'' then r else s);
          ds = takeWhile is_digit u;
          r = dropWhile is_digit u
      in ds \<noteq> [] \<and> (case r of [] \<Rightarrow> True | c # frs \<Rightarrow> c = CHR ''.'' \<and> list_all is_digit frs))"


section \<open>Python floats\<close>

text \<open>
  A Python \<open>float\<close> is an IEEE 754 double. \<open>Finite neg m e\<close> is the double
  \<open>(-1)^neg * m * 2^e\<close> with \<open>m < 2^53\<close> and \<open>-1074 \<le> e \<le> 971\<close>: a normal number has
  \<open>2^52 \<le> m\<close>, a subnormal one has \<open>e = -1074\<close>, and zero is \<open>Finite neg 0 0\<close>.
\<close>

datatype pyfloat = Finite bool nat int | Infinity bool | NaN

fun bitlen :: "nat \<Rightarrow> nat" where
  "bitlen n = (if n = 0 then 0 else Suc (bitlen (n div 2)))"

declare bitlen.simps [simp del]

text \<open>\<open>num / den\<close> rounded to the nearest integer, ties to the even one.\<close>

definition round_half_even :: "nat \<Rightarrow> nat \<Rightarrow> nat" where
  "round_half_even num den =
     (let q = num div den; r = num mod den
      in if 2 * r < den then q
         else if den < 2 * r then q + 1
         else if even q then q else q + 1)"

text \<open>\<open>2^e \<le> num / den\<close>, and \<open>num / den / 2^e\<close> rounded to an integer.\<close>

definition ge_pow2 :: "nat \<Rightarrow> nat \<Rightarrow> int \<Rightarrow> bool" where
  "ge_pow2 num den e =
     (if 0 \<le> e then den * 2 ^ nat e \<le> num else den \<le> num * 2 ^ nat (- e))"

definition round_scaled :: "nat \<Rightarrow> nat \<Rightarrow> int \<Rightarrow> nat" where
  "round_scaled num den e =
     (if 0 \<le> e then round_half_even num (den * 2 ^ nat e)
      else round_half_even (num * 2 ^ nat (- e)) den)"

text \<open>
  The double nearest to \<open>num / den\<close> (round to nearest, ties to even), as the correctly
  rounded \<open>strtod\<close> behind \<open>float(str)\<close> computes it: a value too large becomes an
  infinity, a value too small a zero.
\<close>

definition double_of_ratio :: "bool \<Rightarrow> nat \<Rightarrow> nat \<Rightarrow> pyfloat" where
  "double_of_ratio neg num den =
     (if num = 0 then Finite neg 0 0
      else
        let e0 = int (bitlen num) - int (bitlen den);
            e2 = (if ge_pow2 num den e0 then e0 else e0 - 1);
            ex = max (e2 - 52) (- 1074);
            m = round_scaled num den ex
        in if m = 0 then Finite neg 0 0
           else if m = 2 ^ 53
                then (if 971 < ex + 1 then Infinity neg else Finite neg (2 ^ 52) (ex + 1))
                else (if 971 < ex then Infinity neg else Finite neg m ex))"

text \<open>The double nearest to \<open>n * 10^e10\<close>.\<close>

definition double_of_decimal :: "bool \<Rightarrow> nat \<Rightarrow> int \<Rightarrow> pyfloat" where
  "double_of_decimal neg n e10 =
     (if 0 \<le> e10 then double_of_ratio neg (n * 10 ^ nat e10) 1
      else double_of_ratio neg n (10 ^ nat (- e10)))"

subsection \<open>\<open>float(str)\<close>\<close>

datatype py_exception = ValueError | OSError string

definition is_space :: "char \<Rightarrow> bool" where
  "is_space c =
     (c \<in> set [CHR 0x09, CHR 0x0A, CHR 0x0B, CHR 0x0C, CHR 0x0D, CHR 0x1C, CHR 0x1D,
               CHR 0x1E, CHR 0x1F, CHR 0x20, CHR 0x85, CHR 0xA0])"

definition strip :: "string \<Rightarrow> string" where
  "strip s = rev (dropWhile is_space (rev (dropWhile is_space s)))"

text \<open>
  Underscores in a numeric literal: each one must follow a digit and precede a digit.
  \<open>prev\<close> is the previous character, \<open>None\<close> before the first.
\<close>

fun underscores_ok :: "char option \<Rightarrow> string \<Rightarrow> bool" where
  "underscores_ok prev [] = (prev \<noteq> Some CHR ''_'')"
| "underscores_ok prev (c # cs) =
     (if c = CHR ''_''
      then (case prev of None \<Rightarrow> False | Some p \<Rightarrow> is_digit p) \<and> underscores_ok (Some c) cs
      else (if prev = Some CHR ''_'' then is_digit c else True) \<and> underscores_ok (Some c) cs)"

definition take_sign :: "string \<Rightarrow> bool \<times> string" where
  "take_sign s =
     (case s of [] \<Rightarrow> (False, [])
      | c # r \<Rightarrow> if c = CHR ''-'' then (True, r) else if c = CHR ''+'' then (False, r)
                 else (False, s))"

definition digit_val :: "char \<Rightarrow> nat" where
  "digit_val c =
     (case map_of (zip ''0123456789'' [0, 1, 2, 3, 4, 5, 6, 7, 8, 9]) c of
        Some d \<Rightarrow> d | None \<Rightarrow> 0)"

definition nat_of_digits :: "string \<Rightarrow> nat" where
  "nat_of_digits ds = foldl (\<lambda>a c. 10 * a + digit_val c) 0 ds"

text \<open>
  Lower-casing of the letters of \<open>inf\<close>, \<open>infinity\<close> and \<open>nan\<close>, which is all the
  case-insensitive comparison with these three words needs.
\<close>

definition lower_word :: "string \<Rightarrow> string" where
  "lower_word w =
     map (\<lambda>c. case map_of (zip ''INFTYA'' ''inftya'') c of Some d \<Rightarrow> d | None \<Rightarrow> c) w"

text \<open>The exponent part: empty, or \<open>e\<close> or \<open>E\<close>, an optional sign and one or more digits.\<close>

definition exponent_part :: "string \<Rightarrow> int option" where
  "exponent_part r =
     (case r of [] \<Rightarrow> Some 0
      | c # r' \<Rightarrow>
          if c = CHR ''e'' \<or> c = CHR ''E''
          then (let (eneg, d) = take_sign r'
                in if d \<noteq> [] \<and> list_all is_digit d
                   then Some (if eneg then - int (nat_of_digits d) else int (nat_of_digits d))
                   else None)
          else None)"

text \<open>
  \<open>float(s)\<close> for a \<open>str\<close>: surrounding whitespace is stripped, underscores between
  digits are dropped, and what is left must be, after an optional sign, \<open>inf\<close>,
  \<open>infinity\<close> or \<open>nan\<close> in any case, or a decimal numeral with at least one digit
  before or after the point and an optional exponent. Anything else raises
  \<open>ValueError\<close>.
\<close>

definition py_float :: "string \<Rightarrow> py_exception + pyfloat" where
  "py_float s =
     (let t = strip s
      in if \<not> underscores_ok None t then Inl ValueError
         else
           let (neg, w) = take_sign (filter (\<lambda>c. c \<noteq> CHR ''_'') t)
           in if lower_word w = ''inf'' \<or> lower_word w = ''infinity'' then Inr (Infinity neg)
              else if lower_word w = ''nan'' then Inr NaN
              else
                let ip = takeWhile is_digit w;
                    r1 = dropWhile is_digit w;
                    has_point = (r1 \<noteq> [] \<and> hd r1 = CHR ''.'');
                    fp = (if has_point then takeWhile is_digit (tl r1) else []);
                    r2 = (if has_point then dropWhile is_digit (tl r1) else r1)
                in if ip = [] \<and> fp = [] then Inl ValueError
                   else (case exponent_part r2 of
                           None \<Rightarrow> Inl ValueError
                         | Some ex \<Rightarrow>
                             Inr (double_of_decimal neg (nat_of_digits (ip @ fp))
                                    (ex - int (length fp)))))"

subsection \<open>Formatting: \<open>format(x, '.6f')\<close> and \<open>repr(x)\<close>\<close>

definition digit_char :: "nat \<Rightarrow> char" where
  "digit_char d = ''0123456789'' ! (d mod 10)"

fun show_nat :: "nat \<Rightarrow> string" where
  "show_nat n = (if n < 10 then [digit_char n] else show_nat (n div 10) @ [digit_char n])"

declare show_nat.simps [simp del]

definition sign_str :: "bool \<Rightarrow> string" where
  "sign_str neg = (if neg then ''-'' else [])"

text \<open>The six digits of \<open>k mod 10^6\<close>, with leading zeros.\<close>

definition six_digits :: "nat \<Rightarrow> string" where
  "six_digits k = map (\<lambda>i. digit_char (k div 10 ^ i)) [5, 4, 3, 2, 1, 0]"

text \<open>
  \<open>f"{x:.6f}"\<close>: the exact value of the double, rounded to six decimals (ties to even)
  and written in fixed notation with the sign of the double; infinities and NaN are
  written \<open>inf\<close>, \<open>-inf\<close> and \<open>nan\<close>.
\<close>

fun format_f6 :: "pyfloat \<Rightarrow> string" where
  "format_f6 (Finite neg m e) =
     (let r = round_scaled (m * 10 ^ 6) 1 (- e)
      in sign_str neg @ show_nat (r div 10 ^ 6) @ ''.'' @ six_digits r)"
| "format_f6 (Infinity neg) = sign_str neg @ ''inf''"
| "format_f6 NaN = ''nan''"

text \<open>
  \<open>repr(x)\<close>, which is also \<open>str(x)\<close> and what an f-string writes for \<open>{x}\<close>: the shortest
  decimal numeral that \<open>float\<close> reads back as \<open>x\<close> and, among the numerals of that
  length, the one closest to \<open>x\<close>.

  \<open>dec_exp num den\<close> is the position \<open>k\<close> of the decimal point of \<open>num / den\<close>:
  \<open>10^(k-1) \<le> num / den < 10^k\<close>.
\<close>

fun first_scale :: "nat \<Rightarrow> nat \<Rightarrow> nat \<Rightarrow> nat" where
  "first_scale 0 num den = 0"
| "first_scale (Suc fuel) num den =
     (if den \<le> num then 0 else Suc (first_scale fuel (num * 10) den))"

definition dec_exp :: "nat \<Rightarrow> nat \<Rightarrow> int" where
  "dec_exp num den =
     (if den \<le> num then int (length (show_nat (num div den)))
      else 1 - int (first_scale (bitlen den) num den))"

fun first_some :: "('a \<Rightarrow> 'b option) \<Rightarrow> 'a list \<Rightarrow> 'b option" where
  "first_some f [] = None"
| "first_some f (x # xs) = (case f x of Some y \<Rightarrow> Some y | None \<Rightarrow> first_some f xs)"

text \<open>
  \<open>repr_candidate neg m e k n\<close>: a numeral \<open>c * 10^(k - n)\<close> of at most \<open>n\<close> significant
  digits that reads back as \<open>Finite neg m e\<close>, the closer one if the two neighbours of the
  value both do; the result is \<open>(c, n)\<close>.
\<close>

definition repr_candidate :: "bool \<Rightarrow> nat \<Rightarrow> int \<Rightarrow> int \<Rightarrow> nat \<Rightarrow> (nat \<times> nat) option" where
  "repr_candidate neg m e k n =
     (let num = (if 0 \<le> e then m * 2 ^ nat e else m);
          den = (if 0 \<le> e then 1 else 2 ^ nat (- e));
          p = int n - k;
          sn = (if 0 \<le> p then num * 10 ^ nat p else num);
          sd = (if 0 \<le> p then den else den * 10 ^ nat (- p));
          lo = sn div sd;
          r = sn mod sd;
          lo_ok = (double_of_decimal neg lo (- p) = Finite neg m e);
          hi_ok = (r \<noteq> 0 \<and> double_of_decimal neg (lo + 1) (- p) = Finite neg m e)
      in if lo_ok \<and> hi_ok then Some (if 2 * r \<le> sd then lo else lo + 1, n)
         else if lo_ok then Some (lo, n)
         else if hi_ok then Some (lo + 1, n)
         else None)"

text \<open>
  The digits (without trailing zeros) and the position of the decimal point. Seventeen
  significant digits determine every double; the correctly rounded 17-digit numeral is
  the fallback that makes the function total on triples that are not doubles.
\<close>

definition repr_digits :: "bool \<Rightarrow> nat \<Rightarrow> int \<Rightarrow> string \<times> int" where
  "repr_digits neg m e =
     (let num = (if 0 \<le> e then m * 2 ^ nat e else m);
          den = (if 0 \<le> e then 1 else 2 ^ nat (- e));
          k = dec_exp num den;
          (c, n) = (case first_some (repr_candidate neg m e k)
                           [1, 2, 3, 4, 5, 6, 7, 8, 9, 10, 11, 12, 13, 14, 15, 16, 17] of
                      Some cn \<Rightarrow> cn
                    | None \<Rightarrow>
                        (if 0 \<le> 17 - k then round_half_even (num * 10 ^ nat (17 - k)) den
                         else round_half_even num (den * 10 ^ nat (k - 17)), 17));
          ds = show_nat c
      in (rev (dropWhile (\<lambda>x. x = CHR ''0'') (rev ds)), int (length ds) - (int n - k)))"

text \<open>
  The layout of \<open>repr\<close>: fixed notation when the decimal point position is in
  \<open>-3 .. 16\<close> (with \<open>.0\<close> added to an integral value), else scientific notation with an
  exponent of at least two digits.
\<close>

definition repr_layout :: "string \<Rightarrow> int \<Rightarrow> string" where
  "repr_layout ds decpt =
     (if - 4 < decpt \<and> decpt \<le> 16
      then (if decpt \<le> 0 then ''0.'' @ replicate (nat (- decpt)) CHR ''0'' @ ds
            else if int (length ds) \<le> decpt
                 then ds @ replicate (nat decpt - length ds) CHR ''0'' @ ''.0''
                 else take (nat decpt) ds @ ''.'' @ drop (nat decpt) ds)
      else take 1 ds @ (if 1 < length ds then ''.'' @ drop 1 ds else [])
           @ ''e'' @ (if decpt - 1 < 0 then ''-'' else ''+'')
           @ (if nat \<bar>decpt - 1\<bar> < 10 then ''0'' else []) @ show_nat (nat \<bar>decpt - 1\<bar>))"

fun float_repr :: "pyfloat \<Rightarrow> string" where
  "float_repr (Finite neg m e) =
     (if m = 0 then sign_str neg @ ''0.0''
      else let (ds, decpt) = repr_digits neg m e in sign_str neg @ repr_layout ds decpt)"
| "float_repr (Infinity neg) = sign_str neg @ ''inf''"
| "float_repr NaN = ''nan''"


section \<open>The filename parser and generator\<close>

text \<open>The dictionary \<open>parse_filename\<close> returns, with its five keys.\<close>

record image_info =
  image_id :: string
  lat :: pyfloat
  lon :: pyfloat
  is_query :: bool
  ext :: string

text \<open>\<open>m.group(k)\<close> for \<open>k \<ge> 1\<close>, on the list of groups of a match.\<close>

definition group_of :: "string list \<Rightarrow> nat \<Rightarrow> string" where
  "group_of m k = m ! (k - 1)"

text \<open>
  \<open>parse_filename\<close>: \<open>Inr None\<close> is the \<open>None\<close> returned for an unrecognised name,
  \<open>Inl\<close> an exception raised by \<open>float\<close>.
\<close>

definition parse_filename :: "string \<Rightarrow> py_exception + image_info option" where
  "parse_filename filename =
     (let name_without_ext = fst (splitext filename);
          ext_v = snd (splitext filename)
      in case re_match pattern1 name_without_ext of
           Some match1 \<Rightarrow>
             (case py_float (group_of match1 2) of
                Inl exn \<Rightarrow> Inl exn
              | Inr lat_v \<Rightarrow>
                  (case py_float (group_of match1 3) of
                     Inl exn \<Rightarrow> Inl exn
                   | Inr lon_v \<Rightarrow>
                       Inr (Some \<lparr>image_id = group_of match1 1, lat = lat_v, lon = lon_v,
                                  is_query = True, ext = ext_v\<rparr>)))
         | None \<Rightarrow>
             (case re_match pattern2 name_without_ext of
                Some match2 \<Rightarrow>
                  (case py_float (group_of match2 1) of
                     Inl exn \<Rightarrow> Inl exn
                   | Inr lat_v \<Rightarrow>
                       (case py_float (group_of match2 2) of
                          Inl exn \<Rightarrow> Inl exn
                        | Inr lon_v \<Rightarrow>
                            Inr (Some \<lparr>image_id =
                                         replace_char CHR ''-'' CHR ''n''
                                           (remove_char CHR ''.''
                                              (float_repr lat_v @ ''_'' @ float_repr lon_v)),
                                       lat = lat_v, lon = lon_v, is_query = False, ext = ext_v\<rparr>)))
              | None \<Rightarrow> Inr None))"

definition generate_new_filename :: "image_info \<Rightarrow> bool \<Rightarrow> string" where
  "generate_new_filename info is_success =
     (let query_suffix = (if is_query info then ''_query'' else []);
          status = (if is_success then ''success'' else ''failure'');
          lat_str = format_f6 (lat info);
          lon_str = format_f6 (lon info)
      in ''_'' @ image_id info @ query_suffix @ ''@'' @ lat_str @ ''@'' @ lon_str
         @ ''@'' @ status @ ext info)"


section \<open>The filesystem and the tree walk\<close>

text \<open>
  A path is the list of its components; a filesystem maps the paths that exist to
  their entry. A regular file carries an identifier of its content, so that moving and
  replacing can be told apart. The queries \<open>exists\<close> and \<open>is_file\<close> are total functions of
  the filesystem, as the existence check and the enumeration of the specification's
  filesystem collaborator are: only \<open>rename\<close> can fail. There are no symbolic links.
\<close>

type_synonym path = "string list"

datatype node = File nat | Dir

type_synonym filesystem = "path \<Rightarrow> node option"

definition path_exists :: "filesystem \<Rightarrow> path \<Rightarrow> bool" where
  "path_exists f p = (f p \<noteq> None)"

definition is_file :: "filesystem \<Rightarrow> path \<Rightarrow> bool" where
  "is_file f p = (case f p of Some (File c) \<Rightarrow> True | _ \<Rightarrow> False)"

text \<open>
  \<open>PurePath.name\<close>, \<open>PurePath.parent\<close> and \<open>parent / name\<close> for a \<open>name\<close> that is a
  single component, as the name of a file is.
\<close>

definition path_name :: "path \<Rightarrow> string" where
  "path_name p = (if p = [] then [] else last p)"

definition path_parent :: "path \<Rightarrow> path" where
  "path_parent p = butlast p"

definition path_join :: "path \<Rightarrow> string \<Rightarrow> path" where
  "path_join d n = d @ [n]"

text \<open>
  \<open>PurePath.suffix\<close>:
  \<^verbatim>\<open>
    name = self.name
    i = name.rfind('.')
    if 0 < i < len(name) - 1:
        return name[i:]
    else:
        return ''
  \<close>
\<close>

definition path_suffix :: "path \<Rightarrow> string" where
  "path_suffix p =
     (let name = path_name p; i = rfind CHR ''.'' name
      in if 0 < i \<and> i < int (length name) - 1 then drop (nat i) name else [])"

definition image_extensions :: "string list" where
  "image_extensions = [''.jpg'', ''.jpeg'', ''.png'', ''.JPG'', ''.JPEG'', ''.PNG'']"

text \<open>
  \<open>Path.rename\<close> on a regular file, as \<open>rename(2)\<close> does it: the entry moves to the
  target and silently replaces what was there. \<open>fault\<close> stands for the operating system:
  it may refuse any rename (permissions, I/O errors) with an error text.
\<close>

type_synonym os_fault = "filesystem \<Rightarrow> path \<Rightarrow> path \<Rightarrow> string option"

definition os_rename :: "os_fault \<Rightarrow> filesystem \<Rightarrow> path \<Rightarrow> path \<Rightarrow> py_exception + filesystem" where
  "os_rename fault f src dst =
     (case fault f src dst of
        Some msg \<Rightarrow> Inl (OSError msg)
      | None \<Rightarrow>
          (case f src of
             None \<Rightarrow> Inl (OSError ''No such file or directory'')
           | Some n \<Rightarrow> Inr (f(src := None, dst \<mapsto> n))))"

text \<open>The lines printed for one file, without their wording.\<close>

datatype event =
    Skip_unparsed string
  | Skip_exists string
  | Rename_info path string string pyfloat pyfloat bool
  | Rename_ok
  | Rename_failed py_exception
  | Preview_only

record walk_state =
  fs :: filesystem
  total_files :: nat
  renamed_files :: nat
  skipped_files :: nat
  out :: "event list"

definition say :: "event \<Rightarrow> walk_state \<Rightarrow> walk_state" where
  "say ev st = st\<lparr>out := out st @ [ev]\<rparr>"

text \<open>
  The body of the \<open>for\<close> loop for one path. \<open>Inl\<close> is an exception that leaves the loop;
  the \<open>try\<close> around \<open>rename\<close> catches every \<open>Exception\<close>.
\<close>

definition process_path ::
    "os_fault \<Rightarrow> bool \<Rightarrow> string \<Rightarrow> path \<Rightarrow> walk_state \<Rightarrow> py_exception + walk_state" where
  "process_path fault dry_run default_status file_path st =
     (if is_file (fs st) file_path \<and> path_suffix file_path \<in> set image_extensions
      then
        let st1 = st\<lparr>total_files := total_files st + 1\<rparr>
        in case parse_filename (path_name file_path) of
             Inl exn \<Rightarrow> Inl exn
           | Inr None \<Rightarrow>
               Inr ((say (Skip_unparsed (path_name file_path)) st1)
                      \<lparr>skipped_files := skipped_files st1 + 1\<rparr>)
           | Inr (Some info) \<Rightarrow>
               let new_filename = generate_new_filename info (default_status = ''success'');
                   new_path = path_join (path_parent file_path) new_filename
               in if path_exists (fs st1) new_path \<and> new_path \<noteq> file_path
                  then Inr ((say (Skip_exists (path_name file_path)) st1)
                              \<lparr>skipped_files := skipped_files st1 + 1\<rparr>)
                  else
                    let st2 = say (Rename_info (path_parent file_path) (path_name file_path)
                                     new_filename (lat info) (lon info) (is_query info)) st1
                    in if \<not> dry_run
                       then (case os_rename fault (fs st2) file_path new_path of
                               Inr fs' \<Rightarrow>
                                 Inr ((say Rename_ok st2)
                                        \<lparr>fs := fs', renamed_files := renamed_files st2 + 1\<rparr>)
                             | Inl exn \<Rightarrow>
                                 Inr ((say (Rename_failed exn) st2)
                                        \<lparr>skipped_files := skipped_files st2 + 1\<rparr>))
                       else Inr ((say Preview_only st2)
                                   \<lparr>renamed_files := renamed_files st2 + 1\<rparr>)
      else Inr st)"

text \<open>
  The loop over \<open>folder.rglob('*')\<close>. The paths the generator yields are a parameter of
  the model, so that nothing is assumed about the order of the traversal or about what
  the generator sees of the renames made meanwhile: the results below hold for every
  sequence of paths.
\<close>

fun walk ::
    "os_fault \<Rightarrow> bool \<Rightarrow> string \<Rightarrow> path list \<Rightarrow> walk_state \<Rightarrow> py_exception + walk_state" where
  "walk fault dry_run default_status [] st = Inr st"
| "walk fault dry_run default_status (p # ps) st =
     (case process_path fault dry_run default_status p st of
        Inl exn \<Rightarrow> Inl exn
      | Inr st' \<Rightarrow> walk fault dry_run default_status ps st')"

datatype run_result = Root_not_found | Raised py_exception | Completed walk_state

definition initial_state :: "filesystem \<Rightarrow> walk_state" where
  "initial_state f =
     \<lparr>fs = f, total_files = 0, renamed_files = 0, skipped_files = 0, out = []\<rparr>"

text \<open>
  \<open>rename_images_in_folder\<close>: \<open>rglob\<close> is the sequence that \<open>folder.rglob('*')\<close> yields and
  \<open>f\<close> the filesystem at the call. The result is the early return for a missing folder,
  an exception that escaped, or the state in which the summary is printed.
\<close>

definition rename_images_in_folder ::
    "os_fault \<Rightarrow> path list \<Rightarrow> filesystem \<Rightarrow> path \<Rightarrow> bool \<Rightarrow> string \<Rightarrow> run_result" where
  "rename_images_in_folder fault rglob f folder dry_run default_status =
     (if \<not> path_exists f folder then Root_not_found
      else case walk fault dry_run default_status rglob (initial_state f) of
             Inl exn \<Rightarrow> Raised exn
           | Inr st \<Rightarrow> Completed st)"


section \<open>Auxiliary notions for the proofs\<close>

definition quant_ok :: "quant \<Rightarrow> nat \<Rightarrow> bool" where
  "quant_ok q n = (case q of Once \<Rightarrow> n = 1 | Opt \<Rightarrow> n \<le> 1 | Star \<Rightarrow> True | Rep1 \<Rightarrow> 1 \<le> n)"

text \<open>The words of a sequence of quantified atoms.\<close>

fun atoms_word :: "(cclass \<times> quant) list \<Rightarrow> string \<Rightarrow> bool" where
  "atoms_word [] w = (w = [])"
| "atoms_word ((c, q) # as) w =
     (\<exists>u v. w = u @ v \<and> list_all (in_class c) u \<and> quant_ok q (length u) \<and> atoms_word as v)"

text \<open>The shape of a numeral of the patterns, and the language of the specification.\<close>

definition number_shape :: "string \<Rightarrow> bool" where
  "number_shape w \<longleftrightarrow>
     (\<exists>sg ds pt frs. w = sg @ ds @ pt @ frs \<and> (sg = [] \<or> sg = ''-'') \<and> ds \<noteq> [] \<and>
        list_all is_digit ds \<and> (pt = [] \<or> pt = ''.'') \<and> list_all is_digit frs)"

definition pattern1_shape :: "string \<Rightarrow> string \<Rightarrow> string \<Rightarrow> string \<Rightarrow> string \<Rightarrow> bool" where
  "pattern1_shape s idt n1 n2 rest \<longleftrightarrow>
     s = idt @ '','' @ n1 @ '','' @ n2 @ '','' @ rest \<and> idt \<noteq> [] \<and> CHR '','' \<notin> set idt \<and>
     is_decimal n1 \<and> is_decimal n2"

definition pattern2_shape :: "string \<Rightarrow> string \<Rightarrow> string \<Rightarrow> string \<Rightarrow> bool" where
  "pattern2_shape s n1 n2 nl \<longleftrightarrow>
     s = ''satellite_'' @ n1 @ ''_'' @ n2 @ nl \<and> (nl = [] \<or> nl = [CHR 0x0A]) \<and>
     is_decimal n1 \<and> is_decimal n2"

definition decimal_double :: "string \<Rightarrow> pyfloat" where
  "decimal_double w =
     double_of_decimal (w \<noteq> [] \<and> hd w = CHR ''-'') (nat_of_digits (filter is_digit w))
       (- int (length (tl (dropWhile (\<lambda>c. c \<noteq> CHR ''.'') w))))"

definition has_six_decimals :: "string \<Rightarrow> bool" where
  "has_six_decimals s =
     (let u = (case s of [] \<Rightarrow> [] | c # r \<Rightarrow> if c = CHR ''-'' then r else s);
          ip = takeWhile is_digit u;
          r = dropWhile is_digit u
      in ip \<noteq> [] \<and> r \<noteq> [] \<and> hd r = CHR ''.'' \<and> length (tl r) = 6 \<and> list_all is_digit (tl r))"

definition coords_id :: "pyfloat \<Rightarrow> pyfloat \<Rightarrow> string" where
  "coords_id la lo =
     replace_char CHR ''-'' CHR ''n'' (remove_char CHR ''.'' (float_repr la @ ''_'' @ float_repr lo))"

text \<open>The generated name without its extension.\<close>

definition new_stem :: "image_info \<Rightarrow> bool \<Rightarrow> string" where
  "new_stem info is_success =
     ''_'' @ image_id info @ (if is_query info then ''_query'' else []) @ ''@''
     @ format_f6 (lat info) @ ''@'' @ format_f6 (lon info) @ ''@''
     @ (if is_success then ''success'' else ''failure'')"

definition rename_info :: "string \<Rightarrow> path \<Rightarrow> image_info \<Rightarrow> event" where
  "rename_info ds p info =
     Rename_info (path_parent p) (path_name p)
       (generate_new_filename info (ds = ''success'')) (lat info) (lon info) (is_query info)"

text \<open>
  A file that passes the eligibility, parse and collision checks in filesystem \<open>f\<close>.
\<close>

definition would_rename :: "string \<Rightarrow> filesystem \<Rightarrow> path \<Rightarrow> bool" where
  "would_rename default_status f p =
     (is_file f p \<and> path_suffix p \<in> set image_extensions \<and>
      (case parse_filename (path_name p) of
         Inr (Some info) \<Rightarrow>
           (let new_path = path_join (path_parent p)
                             (generate_new_filename info (default_status = ''success''))
            in \<not> (path_exists f new_path \<and> new_path \<noteq> p))
       | _ \<Rightarrow> False))"

text \<open>A path that the loop counts: a regular file with one of the six extensions.\<close>

definition eligible :: "filesystem \<Rightarrow> path \<Rightarrow> bool" where
  "eligible f p = (is_file f p \<and> path_suffix p \<in> set image_extensions)"

text \<open>The destination that the loop computes for a parsed file.\<close>

definition new_path_of :: "string \<Rightarrow> path \<Rightarrow> image_info \<Rightarrow> path" where
  "new_path_of default_status p info =
     path_join (path_parent p) (generate_new_filename info (default_status = ''success''))"

text \<open>\<open>parse_filename\<close> with the two patterns tried in the other order.\<close>

definition parse_filename_B_first :: "string \<Rightarrow> py_exception + image_info option" where
  "parse_filename_B_first filename =
     (let name_without_ext = fst (splitext filename);
          ext_v = snd (splitext filename)
      in case re_match pattern2 name_without_ext of
           Some match2 \<Rightarrow>
             (case py_float (group_of match2 1) of
                Inl exn \<Rightarrow> Inl exn
              | Inr lat_v \<Rightarrow>
                  (case py_float (group_of match2 2) of
                     Inl exn \<Rightarrow> Inl exn
                   | Inr lon_v \<Rightarrow>
                       Inr (Some \<lparr>image_id =
                                    replace_char CHR ''-'' CHR ''n''
                                      (remove_char CHR ''.''
                                         (float_repr lat_v @ ''_'' @ float_repr lon_v)),
                                  lat = lat_v, lon = lon_v, is_query = False, ext = ext_v\<rparr>)))
         | None \<Rightarrow>
             (case re_match pattern1 name_without_ext of
                Some match1 \<Rightarrow>
                  (case py_float (group_of match1 2) of
                     Inl exn \<Rightarrow> Inl exn
                   | Inr lat_v \<Rightarrow>
                       (case py_float (group_of match1 3) of
                          Inl exn \<Rightarrow> Inl exn
                        | Inr lon_v \<Rightarrow>
                            Inr (Some \<lparr>image_id = group_of match1 1, lat = lat_v, lon = lon_v,
                                       is_query = True, ext = ext_v\<rparr>)))
              | None \<Rightarrow> Inr None))"

definition is_finite :: "pyfloat \<Rightarrow> bool" where
  "is_finite x = (case x of Finite neg m e \<Rightarrow> True | _ \<Rightarrow> False)"

text \<open>The three counters of a run that reached its summary.\<close>

definition final_counts :: "run_result \<Rightarrow> (nat \<times> nat \<times> nat) option" where
  "final_counts r =
     (case r of Completed st \<Rightarrow> Some (total_files st, renamed_files st, skipped_files st)
      | _ \<Rightarrow> None)"

text \<open>An operating system that refuses no rename.\<close>

definition no_fault :: os_fault where
  "no_fault f src dst = None"

text \<open>The two events that report an attempted rename.\<close>

definition is_rename_attempt :: "event \<Rightarrow> bool" where
  "is_rename_attempt ev =
     (case ev of Rename_ok \<Rightarrow> True | Rename_failed exn \<Rightarrow> True | _ \<Rightarrow> False)"

text \<open>An operating system that refuses every rename.\<close>

definition deny_all :: os_fault where
  "deny_all f src dst = Some ''Permission denied''"

text \<open>
  A small tree for the examples: two query images whose names differ only after the
  \<open>id,lat,lon,\<close> prefix, a name that matches neither pattern, and a file that already
  carries the normalized name of the first two.
\<close>

definition demo_root :: path where
  "demo_root = [''demo-img'']"

definition demo_a :: path where
  "demo_a = [''demo-img'', ''a,1,2,.jpg'']"

definition demo_b :: path where
  "demo_b = [''demo-img'', ''a,1,2,x.jpg'']"

definition demo_c :: path where
  "demo_c = [''demo-img'', ''photo001.jpg'']"

definition demo_new :: path where
  "demo_new = [''demo-img'', ''_a_query@1.000000@2.000000@success.jpg'']"

definition demo_fs :: filesystem where
  "demo_fs = [demo_root \<mapsto> Dir, demo_a \<mapsto> File 1, demo_b \<mapsto> File 2, demo_c \<mapsto> File 3]"

definition demo_info :: image_info where
  "demo_info =
     \<lparr>image_id = ''a'', lat = Finite False 4503599627370496 (- 52),
      lon = Finite False 4503599627370496 (- 51), is_query = True, ext = ''.jpg''\<rparr>"


section \<open>Lemmas\<close>

lemma star_rests_iff:
  "r \<in> set (star_rests c s) \<longleftrightarrow> (\<exists>pre. s = pre @ r \<and> list_all (in_class c) pre)"
proof (induction s)
  case Nil
  then show ?case by auto
next
  case (Cons x xs)
  show ?case
  proof
    assume "r \<in> set (star_rests c (x # xs))"
    then consider "r = x # xs" | "in_class c x" "r \<in> set (star_rests c xs)"
      by (auto split: if_splits)
    then show "\<exists>pre. x # xs = pre @ r \<and> list_all (in_class c) pre"
    proof cases
      case 1
      then show ?thesis by (intro exI[of _ "[]"]) simp
    next
      case 2
      with Cons.IH obtain pre where "xs = pre @ r" "list_all (in_class c) pre" by auto
      with 2 show ?thesis by (intro exI[of _ "x # pre"]) simp
    qed
  next
    assume "\<exists>pre. x # xs = pre @ r \<and> list_all (in_class c) pre"
    then obtain pre where p: "x # xs = pre @ r" "list_all (in_class c) pre" by auto
    show "r \<in> set (star_rests c (x # xs))"
    proof (cases pre)
      case Nil
      with p show ?thesis by auto
    next
      case (Cons y ys)
      with p have "in_class c x" "xs = ys @ r" "list_all (in_class c) ys" by auto
      with Cons.IH show ?thesis by auto
    qed
  qed
qed

lemma atom_rests_iff:
  "r \<in> set (atom_rests c q s) \<longleftrightarrow>
     (\<exists>pre. s = pre @ r \<and> list_all (in_class c) pre \<and> quant_ok q (length pre))"
proof (cases q)
  case Once
  show ?thesis
  proof (cases s)
    case Nil
    then show ?thesis using Once by (auto simp: quant_ok_def)
  next
    case (Cons x xs)
    show ?thesis
    proof
      assume "r \<in> set (atom_rests c q s)"
      then have "in_class c x" "r = xs" using Once Cons by (auto split: if_splits)
      then show "\<exists>pre. s = pre @ r \<and> list_all (in_class c) pre \<and> quant_ok q (length pre)"
        using Once Cons by (intro exI[of _ "[x]"]) (simp add: quant_ok_def)
    next
      assume "\<exists>pre. s = pre @ r \<and> list_all (in_class c) pre \<and> quant_ok q (length pre)"
      then obtain pre where p: "s = pre @ r" "list_all (in_class c) pre" "length pre = 1"
        using Once by (auto simp: quant_ok_def)
      then obtain y where "pre = [y]" by (cases pre) auto
      with p Cons Once show "r \<in> set (atom_rests c q s)" by auto
    qed
  qed
next
  case Opt
  show ?thesis
  proof (cases s)
    case Nil
    then show ?thesis using Opt by (auto simp: quant_ok_def)
  next
    case (Cons x xs)
    show ?thesis
    proof
      assume "r \<in> set (atom_rests c q s)"
      then consider "r = s" | "in_class c x" "r = xs" using Opt Cons by (auto split: if_splits)
      then show "\<exists>pre. s = pre @ r \<and> list_all (in_class c) pre \<and> quant_ok q (length pre)"
      proof cases
        case 1
        then show ?thesis using Opt by (intro exI[of _ "[]"]) (simp add: quant_ok_def)
      next
        case 2
        then show ?thesis using Opt Cons by (intro exI[of _ "[x]"]) (simp add: quant_ok_def)
      qed
    next
      assume "\<exists>pre. s = pre @ r \<and> list_all (in_class c) pre \<and> quant_ok q (length pre)"
      then obtain pre where p: "s = pre @ r" "list_all (in_class c) pre" "length pre \<le> 1"
        using Opt by (auto simp: quant_ok_def)
      then consider "pre = []" | y where "pre = [y]" by (cases pre) auto
      then show "r \<in> set (atom_rests c q s)"
        using p Cons Opt by cases auto
    qed
  qed
next
  case Star
  then show ?thesis by (simp add: star_rests_iff quant_ok_def)
next
  case Rep1
  show ?thesis
  proof (cases s)
    case Nil
    then show ?thesis using Rep1 by (auto simp: quant_ok_def)
  next
    case (Cons x xs)
    show ?thesis
    proof
      assume "r \<in> set (atom_rests c q s)"
      then have "in_class c x" "r \<in> set (star_rests c xs)"
        using Rep1 Cons by (auto split: if_splits)
      then obtain pre where "xs = pre @ r" "list_all (in_class c) pre"
        by (auto simp: star_rests_iff)
      then show "\<exists>pre. s = pre @ r \<and> list_all (in_class c) pre \<and> quant_ok q (length pre)"
        using Rep1 Cons \<open>in_class c x\<close> by (intro exI[of _ "x # pre"]) (simp add: quant_ok_def)
    next
      assume "\<exists>pre. s = pre @ r \<and> list_all (in_class c) pre \<and> quant_ok q (length pre)"
      then obtain pre where p: "s = pre @ r" "list_all (in_class c) pre" "1 \<le> length pre"
        using Rep1 by (auto simp: quant_ok_def)
      then obtain y ys where "pre = y # ys" by (cases pre) auto
      with p Cons have "in_class c x" "xs = ys @ r" "list_all (in_class c) ys" by auto
      then show "r \<in> set (atom_rests c q s)"
        using Rep1 Cons by (auto simp: star_rests_iff)
    qed
  qed
qed

lemma atoms_rests_iff:
  "r \<in> set (atoms_rests as s) \<longleftrightarrow> (\<exists>pre. s = pre @ r \<and> atoms_word as pre)"
proof (induction as arbitrary: s)
  case Nil
  then show ?case by auto
next
  case (Cons a as)
  obtain c q where a: "a = (c, q)" by (cases a)
  show ?case
  proof
    assume "r \<in> set (atoms_rests (a # as) s)"
    then obtain r1 where r1: "r1 \<in> set (atom_rests c q s)" "r \<in> set (atoms_rests as r1)"
      using a by auto
    from r1(1) obtain u where u: "s = u @ r1" "list_all (in_class c) u" "quant_ok q (length u)"
      by (auto simp: atom_rests_iff)
    from r1(2) Cons.IH obtain v where v: "r1 = v @ r" "atoms_word as v" by auto
    show "\<exists>pre. s = pre @ r \<and> atoms_word (a # as) pre"
      using a u v by (intro exI[of _ "u @ v"]) auto
  next
    assume "\<exists>pre. s = pre @ r \<and> atoms_word (a # as) pre"
    then obtain u v where uv: "s = (u @ v) @ r" "list_all (in_class c) u"
      "quant_ok q (length u)" "atoms_word as v"
      using a by auto
    then have "v @ r \<in> set (atom_rests c q s)" by (auto simp: atom_rests_iff)
    moreover have "r \<in> set (atoms_rests as (v @ r))" using uv(4) Cons.IH by auto
    ultimately show "r \<in> set (atoms_rests (a # as) s)" using a by auto
  qed
qed

lemma match_Group_iff:
  "m \<in> set (match_pieces (Group as # ps) s caps) \<longleftrightarrow>
     (\<exists>pre r. s = pre @ r \<and> atoms_word as pre \<and> m \<in> set (match_pieces ps r (caps @ [pre])))"
proof
  assume "m \<in> set (match_pieces (Group as # ps) s caps)"
  then obtain r where r: "r \<in> set (atoms_rests as s)"
    "m \<in> set (match_pieces ps r (caps @ [take (length s - length r) s]))"
    by auto
  from r(1) obtain pre where pre: "s = pre @ r" "atoms_word as pre"
    by (auto simp: atoms_rests_iff)
  then have "take (length s - length r) s = pre" by simp
  with r(2) pre show "\<exists>pre r. s = pre @ r \<and> atoms_word as pre \<and>
      m \<in> set (match_pieces ps r (caps @ [pre]))"
    by auto
next
  assume "\<exists>pre r. s = pre @ r \<and> atoms_word as pre \<and>
      m \<in> set (match_pieces ps r (caps @ [pre]))"
  then obtain pre r where pre: "s = pre @ r" "atoms_word as pre"
    "m \<in> set (match_pieces ps r (caps @ [pre]))"
    by auto
  then have "r \<in> set (atoms_rests as s)" by (auto simp: atoms_rests_iff)
  moreover have "take (length s - length r) s = pre" using pre(1) by simp
  ultimately show "m \<in> set (match_pieces (Group as # ps) s caps)"
    using pre(3) by auto
qed

lemma match_Lit_iff:
  "m \<in> set (match_pieces (Atom (Lit c) Once # ps) s caps) \<longleftrightarrow>
     (\<exists>r. s = c # r \<and> m \<in> set (match_pieces ps r caps))"
  by (cases s) auto

lemma match_lits_iff:
  "m \<in> set (match_pieces (lits w @ ps) s caps) \<longleftrightarrow>
     (\<exists>r. s = w @ r \<and> m \<in> set (match_pieces ps r caps))"
proof (induction w arbitrary: s)
  case Nil
  then show ?case by (simp add: lits_def)
next
  case (Cons c w)
  have "lits (c # w) @ ps = Atom (Lit c) Once # (lits w @ ps)" by (simp add: lits_def)
  then show ?case using Cons.IH by (auto simp: match_Lit_iff simp del: match_pieces.simps)
qed

lemma match_End_iff:
  "m \<in> set (match_pieces [EndAnchor] s caps) \<longleftrightarrow> ((s = [] \<or> s = [CHR 0x0A]) \<and> m = caps)"
  by auto

lemma list_all_Lit: "list_all (in_class (Lit c)) u \<Longrightarrow> length u \<le> 1 \<Longrightarrow> u = [] \<or> u = [c]"
  by (cases u) auto

lemma atoms_word_ConsI:
  "list_all (in_class c) u \<Longrightarrow> quant_ok q (length u) \<Longrightarrow> atoms_word as v \<Longrightarrow>
     atoms_word ((c, q) # as) (u @ v)"
  by auto

lemma atoms_word_number: "atoms_word number_atoms w \<longleftrightarrow> number_shape w"
proof
  assume "atoms_word number_atoms w"
  then obtain sg ds pt frs where w: "w = sg @ ds @ pt @ frs"
    and sg: "list_all (in_class (Lit CHR ''-'')) sg" "length sg \<le> 1"
    and ds: "list_all is_digit ds" "1 \<le> length ds"
    and pt: "list_all (in_class (Lit CHR ''.'')) pt" "length pt \<le> 1"
    and frs: "list_all is_digit frs"
    by (auto simp: number_atoms_def quant_ok_def list_all_iff)
  from sg have "sg = [] \<or> sg = ''-''" by (rule list_all_Lit)
  moreover from pt have "pt = [] \<or> pt = ''.''" by (rule list_all_Lit)
  moreover from ds have "ds \<noteq> []" by auto
  ultimately show "number_shape w" using w ds frs unfolding number_shape_def by blast
next
  assume "number_shape w"
  then obtain sg ds pt frs where w: "w = sg @ ds @ pt @ frs"
    and sg: "sg = [] \<or> sg = ''-''" and ds: "ds \<noteq> []" "list_all is_digit ds"
    and pt: "pt = [] \<or> pt = ''.''" and frs: "list_all is_digit frs"
    unfolding number_shape_def by blast
  have 1: "list_all (in_class (Lit CHR ''-'')) sg \<and> quant_ok Opt (length sg)"
    using sg by (auto simp: quant_ok_def)
  have 2: "list_all (in_class Digit) ds \<and> quant_ok Rep1 (length ds)"
    using ds by (cases ds) (auto simp: quant_ok_def list_all_iff)
  have 3: "list_all (in_class (Lit CHR ''.'')) pt \<and> quant_ok Opt (length pt)"
    using pt by (auto simp: quant_ok_def)
  have 4: "list_all (in_class Digit) frs \<and> quant_ok Star (length frs)"
    using frs by (auto simp: quant_ok_def list_all_iff)
  have a4: "atoms_word [(Digit, Star)] (frs @ [])"
    by (rule atoms_word_ConsI) (use 4 in simp_all)
  have a3: "atoms_word [(Lit CHR ''.'', Opt), (Digit, Star)] (pt @ frs @ [])"
    by (rule atoms_word_ConsI[OF _ _ a4]) (use 3 in simp_all)
  have a2: "atoms_word [(Digit, Rep1), (Lit CHR ''.'', Opt), (Digit, Star)] (ds @ pt @ frs @ [])"
    by (rule atoms_word_ConsI[OF _ _ a3]) (use 2 in simp_all)
  have "atoms_word number_atoms (sg @ ds @ pt @ frs @ [])"
    unfolding number_atoms_def by (rule atoms_word_ConsI[OF _ _ a2]) (use 1 in simp_all)
  then show "atoms_word number_atoms w" using w by simp
qed

lemma not_digit_chars [simp]:
  "\<not> is_digit CHR ''.''" "\<not> is_digit CHR ''-''" "\<not> is_digit CHR '',''"
  "\<not> is_digit CHR ''_''" "\<not> is_digit (CHR 0x0A)"
  by (simp_all add: is_digit_def)

lemma takeWhile_digits_append:
  "list_all is_digit ds \<Longrightarrow> takeWhile is_digit (ds @ r) = ds @ takeWhile is_digit r"
  by (induction ds) auto

lemma dropWhile_digits_append:
  "list_all is_digit ds \<Longrightarrow> dropWhile is_digit (ds @ r) = dropWhile is_digit r"
  by (induction ds) auto

lemma takeWhile_digits_all: "list_all is_digit ds \<Longrightarrow> takeWhile is_digit ds = ds"
  by (induction ds) auto

lemma dropWhile_digits_all: "list_all is_digit ds \<Longrightarrow> dropWhile is_digit ds = []"
  by (induction ds) auto

lemma number_shape_is_decimal: "number_shape w \<longleftrightarrow> is_decimal w"
proof
  assume "number_shape w"
  then obtain sg ds pt frs where w: "w = sg @ ds @ pt @ frs"
    and sg: "sg = [] \<or> sg = ''-''" and ds: "ds \<noteq> []" "list_all is_digit ds"
    and pt: "pt = [] \<or> pt = ''.''" and frs: "list_all is_digit frs"
    unfolding number_shape_def by blast
  obtain d ds' where d: "ds = d # ds'" "is_digit d" using ds by (cases ds) auto
  then have dm: "d \<noteq> CHR ''-''" by auto
  have u: "(case w of [] \<Rightarrow> [] | c # r \<Rightarrow> if c = CHR ''-'' then r else w) = ds @ pt @ frs"
    using sg w d dm by auto
  have t: "takeWhile is_digit (ds @ pt @ frs) = ds @ (if pt = [] then frs else [])"
    using pt ds frs by (auto simp: takeWhile_digits_append takeWhile_digits_all)
  have r: "dropWhile is_digit (ds @ pt @ frs) = (if pt = [] then [] else ''.'' @ frs)"
    using pt ds frs by (auto simp: dropWhile_digits_append dropWhile_digits_all)
  show "is_decimal w"
    unfolding is_decimal_def Let_def u t r using ds frs by auto
next
  assume a: "is_decimal w"
  define u where "u = (case w of [] \<Rightarrow> [] | c # r \<Rightarrow> if c = CHR ''-'' then r else w)"
  define sg where "sg = (if w \<noteq> [] \<and> hd w = CHR ''-'' then ''-'' else [])"
  have w: "w = sg @ u" unfolding sg_def u_def by (cases w) auto
  have sg: "sg = [] \<or> sg = ''-''" unfolding sg_def by auto
  define ds where "ds = takeWhile is_digit u"
  define r where "r = dropWhile is_digit u"
  have u: "u = ds @ r" by (simp add: ds_def r_def)
  from a have ds: "ds \<noteq> []"
    and r: "(case r of [] \<Rightarrow> True | c # frs \<Rightarrow> c = CHR ''.'' \<and> list_all is_digit frs)"
    unfolding is_decimal_def Let_def u_def ds_def r_def by auto
  have dd: "list_all is_digit ds"
    unfolding ds_def list_all_iff using set_takeWhileD by fast
  have "\<exists>pt frs. r = pt @ frs \<and> (pt = [] \<or> pt = ''.'') \<and> list_all is_digit frs"
  proof (cases r)
    case Nil
    then show ?thesis by simp
  next
    case (Cons c frs)
    with r have "c = CHR ''.''" "list_all is_digit frs" by auto
    with Cons show ?thesis by (intro exI[of _ "''.''"] exI[of _ frs]) simp
  qed
  then obtain pt frs where pf: "r = pt @ frs" "pt = [] \<or> pt = ''.''" "list_all is_digit frs"
    by auto
  show "number_shape w"
    unfolding number_shape_def
    using w u pf sg ds dd
    by (intro exI[of _ sg] exI[of _ ds] exI[of _ pt] exI[of _ frs]) simp
qed

lemma atoms_word_number_decimal: "atoms_word number_atoms w \<longleftrightarrow> is_decimal w"
  by (simp add: atoms_word_number number_shape_is_decimal)

lemma atoms_word_notcomma:
  "atoms_word [(NotLit c, Rep1)] w \<longleftrightarrow> (w \<noteq> [] \<and> c \<notin> set w)"
  by (cases w) (auto simp: quant_ok_def list_all_iff)

lemma number_shape_chars: "number_shape w \<Longrightarrow> x \<in> set w \<Longrightarrow> is_digit x \<or> x = CHR ''-'' \<or> x = CHR ''.''"
  unfolding number_shape_def by (auto simp: list_all_iff)

lemma is_decimal_chars:
  "is_decimal w \<Longrightarrow> x \<in> set w \<Longrightarrow> is_digit x \<or> x = CHR ''-'' \<or> x = CHR ''.''"
  using number_shape_chars number_shape_is_decimal by blast

lemma is_decimal_no_sep:
  assumes "is_decimal w"
  shows "CHR '','' \<notin> set w" "CHR ''_'' \<notin> set w" "CHR 0x0A \<notin> set w"
  using is_decimal_chars[OF assms, of "CHR '',''"] is_decimal_chars[OF assms, of "CHR ''_''"]
    is_decimal_chars[OF assms, of "CHR 0x0A"]
  by auto

lemma match_num_lit:
  "m \<in> set (match_pieces (Group number_atoms # Atom (Lit c) Once # ps) s caps) \<longleftrightarrow>
     (\<exists>n r. s = n @ c # r \<and> is_decimal n \<and> m \<in> set (match_pieces ps r (caps @ [n])))"
  by (simp only: match_Group_iff match_Lit_iff atoms_word_number_decimal) blast

lemma match_num_end:
  "m \<in> set (match_pieces [Group number_atoms, EndAnchor] s caps) \<longleftrightarrow>
     (\<exists>n nl. s = n @ nl \<and> is_decimal n \<and> (nl = [] \<or> nl = [CHR 0x0A]) \<and> m = caps @ [n])"
  by (simp only: match_Group_iff match_End_iff atoms_word_number_decimal)

lemma split_unique:
  "c \<notin> set a \<Longrightarrow> c \<notin> set a' \<Longrightarrow> a @ c # r = a' @ c # r' \<Longrightarrow> a = a' \<and> r = r'"
proof (induction a arbitrary: a')
  case Nil
  then show ?case by (cases a') auto
next
  case (Cons x a)
  then show ?case by (cases a') auto
qed

lemma re_match_Some_mem: "re_match pat s = Some m \<Longrightarrow> m \<in> set (match_pieces pat s [])"
  by (auto simp: re_match_def split: list.splits)

lemma re_match_None_iff: "re_match pat s = None \<longleftrightarrow> set (match_pieces pat s []) = {}"
  by (auto simp: re_match_def split: list.splits)

lemma re_match_unique:
  assumes "m \<in> set (match_pieces pat s [])"
    and "\<And>m'. m' \<in> set (match_pieces pat s []) \<Longrightarrow> m' = m"
  shows "re_match pat s = Some m"
proof (cases "match_pieces pat s []")
  case Nil
  with assms(1) show ?thesis by simp
next
  case (Cons m' ms)
  then have "m' = m" using assms(2) by simp
  with Cons show ?thesis by (simp add: re_match_def)
qed

lemma pattern1_mem_iff:
  "m \<in> set (match_pieces pattern1 s []) \<longleftrightarrow>
     (\<exists>idt n1 n2 rest. pattern1_shape s idt n1 n2 rest \<and> m = [idt, n1, n2])"
proof
  assume "m \<in> set (match_pieces pattern1 s [])"
  then have "\<exists>idt r1. s = idt @ r1 \<and> atoms_word [(NotLit CHR '','', Rep1)] idt \<and>
      (\<exists>r2. r1 = CHR '','' # r2 \<and>
         (\<exists>n1 r3. r2 = n1 @ CHR '','' # r3 \<and> is_decimal n1 \<and>
           (\<exists>n2 r4. r3 = n2 @ CHR '','' # r4 \<and> is_decimal n2 \<and>
              m \<in> set (match_pieces [] r4 (([] @ [idt]) @ [n1] @ [n2])))))"
    unfolding pattern1_def
    by (subst (asm) match_Group_iff) (simp only: match_Lit_iff match_num_lit append_assoc)
  then obtain idt n1 n2 r4 where "s = idt @ CHR '','' # n1 @ CHR '','' # n2 @ CHR '','' # r4"
    "idt \<noteq> []" "CHR '','' \<notin> set idt" "is_decimal n1" "is_decimal n2" "m = [idt, n1, n2]"
    by (auto simp: atoms_word_notcomma simp del: atoms_word.simps)
  then have "pattern1_shape s idt n1 n2 r4 \<and> m = [idt, n1, n2]"
    by (simp add: pattern1_shape_def)
  then show "\<exists>idt n1 n2 rest. pattern1_shape s idt n1 n2 rest \<and> m = [idt, n1, n2]"
    by blast
next
  assume "\<exists>idt n1 n2 rest. pattern1_shape s idt n1 n2 rest \<and> m = [idt, n1, n2]"
  then obtain idt n1 n2 rest where s: "s = idt @ CHR '','' # n1 @ CHR '','' # n2 @ CHR '','' # rest"
    and i: "idt \<noteq> []" "CHR '','' \<notin> set idt" and n: "is_decimal n1" "is_decimal n2"
    and m: "m = [idt, n1, n2]"
    by (auto simp: pattern1_shape_def)
  have 3: "m \<in> set (match_pieces [Group number_atoms, Atom (Lit CHR '','') Once]
      (n2 @ CHR '','' # rest) [idt, n1])"
    unfolding match_num_lit using n m by auto
  have 2: "m \<in> set (match_pieces
      [Group number_atoms, Atom (Lit CHR '','') Once, Group number_atoms, Atom (Lit CHR '','') Once]
      (n1 @ CHR '','' # n2 @ CHR '','' # rest) [idt])"
    unfolding match_num_lit[of m "CHR '',''" "[Group number_atoms, Atom (Lit CHR '','') Once]"]
    using n 3 by (intro exI[of _ n1] exI[of _ "n2 @ CHR '','' # rest"]) simp
  have 1: "m \<in> set (match_pieces (Atom (Lit CHR '','') Once #
      [Group number_atoms, Atom (Lit CHR '','') Once, Group number_atoms, Atom (Lit CHR '','') Once])
      (CHR '','' # n1 @ CHR '','' # n2 @ CHR '','' # rest) [idt])"
    unfolding match_Lit_iff using 2 by simp
  have "atoms_word [(NotLit CHR '','', Rep1)] idt"
    using i by (simp add: atoms_word_notcomma del: atoms_word.simps)
  then show "m \<in> set (match_pieces pattern1 s [])"
    unfolding pattern1_def s match_Group_iff using 1
    by (intro exI[of _ idt] exI[of _ "CHR '','' # n1 @ CHR '','' # n2 @ CHR '','' # rest"]) simp
qed

lemma pattern1_shape_unique:
  assumes "pattern1_shape s idt n1 n2 rest" "pattern1_shape s idt' n1' n2' rest'"
  shows "idt' = idt \<and> n1' = n1 \<and> n2' = n2 \<and> rest' = rest"
proof -
  note c = is_decimal_no_sep(1)
  from assms have e: "idt @ CHR '','' # (n1 @ '','' @ n2 @ '','' @ rest)
      = idt' @ CHR '','' # (n1' @ '','' @ n2' @ '','' @ rest')"
    by (simp add: pattern1_shape_def)
  from assms have "CHR '','' \<notin> set idt" "CHR '','' \<notin> set idt'"
    by (simp_all add: pattern1_shape_def)
  from split_unique[OF this e] have 1: "idt = idt'"
    and e1: "n1 @ CHR '','' # (n2 @ '','' @ rest) = n1' @ CHR '','' # (n2' @ '','' @ rest')"
    by simp_all
  from assms have "CHR '','' \<notin> set n1" "CHR '','' \<notin> set n1'"
    by (simp_all add: pattern1_shape_def c)
  from split_unique[OF this e1] have 2: "n1 = n1'"
    and e2: "n2 @ CHR '','' # rest = n2' @ CHR '','' # rest'"
    by simp_all
  from assms have "CHR '','' \<notin> set n2" "CHR '','' \<notin> set n2'"
    by (simp_all add: pattern1_shape_def c)
  from split_unique[OF this e2] have "n2 = n2'" "rest = rest'" by simp_all
  with 1 2 show ?thesis by simp
qed

lemma re_match_pattern1:
  assumes "pattern1_shape s idt n1 n2 rest"
  shows "re_match pattern1 s = Some [idt, n1, n2]"
proof (rule re_match_unique)
  show "[idt, n1, n2] \<in> set (match_pieces pattern1 s [])"
    using assms pattern1_mem_iff by blast
next
  fix m' assume "m' \<in> set (match_pieces pattern1 s [])"
  then obtain idt' n1' n2' rest' where
    "pattern1_shape s idt' n1' n2' rest'" "m' = [idt', n1', n2']"
    using pattern1_mem_iff by blast
  with pattern1_shape_unique[OF assms this(1)] show "m' = [idt, n1, n2]" by simp
qed

lemma re_match_pattern1_Some:
  assumes "re_match pattern1 s = Some m"
  shows "\<exists>idt n1 n2 rest. pattern1_shape s idt n1 n2 rest \<and> m = [idt, n1, n2]"
  using re_match_Some_mem[OF assms] pattern1_mem_iff by simp

lemma re_match_pattern1_comma:
  assumes "CHR '','' \<notin> set s"
  shows "re_match pattern1 s = None"
proof (cases "re_match pattern1 s")
  case None
  then show ?thesis .
next
  case (Some m)
  from re_match_pattern1_Some[OF this] assms show ?thesis
    by (auto simp: pattern1_shape_def)
qed

lemma pattern2_mem_iff:
  "m \<in> set (match_pieces pattern2 s []) \<longleftrightarrow>
     (\<exists>n1 n2 nl. pattern2_shape s n1 n2 nl \<and> m = [n1, n2])"
proof
  assume "m \<in> set (match_pieces pattern2 s [])"
  then have "\<exists>r. s = ''satellite_'' @ r \<and>
      (\<exists>n1 r3. r = n1 @ CHR ''_'' # r3 \<and> is_decimal n1 \<and>
         (\<exists>n2 nl. r3 = n2 @ nl \<and> is_decimal n2 \<and> (nl = [] \<or> nl = [CHR 0x0A]) \<and>
            m = ([] @ [n1]) @ [n2]))"
    unfolding pattern2_def
    by (simp only: match_lits_iff match_num_lit match_num_end)
  then obtain n1 n2 nl where "s = ''satellite_'' @ n1 @ CHR ''_'' # n2 @ nl"
    "is_decimal n1" "is_decimal n2" "nl = [] \<or> nl = [CHR 0x0A]" "m = [n1, n2]"
    by auto
  then have "pattern2_shape s n1 n2 nl \<and> m = [n1, n2]"
    by (simp add: pattern2_shape_def)
  then show "\<exists>n1 n2 nl. pattern2_shape s n1 n2 nl \<and> m = [n1, n2]"
    by blast
next
  assume "\<exists>n1 n2 nl. pattern2_shape s n1 n2 nl \<and> m = [n1, n2]"
  then obtain n1 n2 nl where s: "s = ''satellite_'' @ (n1 @ CHR ''_'' # n2 @ nl)"
    and n: "is_decimal n1" "is_decimal n2" and nl: "nl = [] \<or> nl = [CHR 0x0A]"
    and m: "m = [n1, n2]"
    by (auto simp: pattern2_shape_def)
  have 2: "m \<in> set (match_pieces [Group number_atoms, EndAnchor] (n2 @ nl) ([] @ [n1]))"
    unfolding match_num_end using n nl m
    by (intro exI[of _ n2] exI[of _ nl]) simp
  have 1: "m \<in> set (match_pieces
      (Group number_atoms # Atom (Lit CHR ''_'') Once # [Group number_atoms, EndAnchor])
      (n1 @ CHR ''_'' # n2 @ nl) [])"
    unfolding match_num_lit using n 2
    by (intro exI[of _ n1] exI[of _ "n2 @ nl"]) simp
  show "m \<in> set (match_pieces pattern2 s [])"
    unfolding pattern2_def s match_lits_iff using 1 by blast
qed

lemma split_end_unique:
  assumes "CHR 0x0A \<notin> set a" "CHR 0x0A \<notin> set a'" "a @ r = a' @ r'"
    "r = [] \<or> r = [CHR 0x0A]" "r' = [] \<or> r' = [CHR 0x0A]"
  shows "a = a' \<and> r = r'"
proof -
  have "takeWhile (\<lambda>x. x \<noteq> CHR 0x0A) (a @ r) = a"
    using assms(1,4) by (auto simp: takeWhile_tail)
  moreover have "takeWhile (\<lambda>x. x \<noteq> CHR 0x0A) (a' @ r') = a'"
    using assms(2,5) by (auto simp: takeWhile_tail)
  ultimately have "a = a'" using assms(3) by simp
  with assms(3) show ?thesis by simp
qed

lemma pattern2_shape_unique:
  assumes "pattern2_shape s n1 n2 nl" "pattern2_shape s n1' n2' nl'"
  shows "n1' = n1 \<and> n2' = n2 \<and> nl' = nl"
proof -
  from assms have e: "n1 @ CHR ''_'' # (n2 @ nl) = n1' @ CHR ''_'' # (n2' @ nl')"
    by (simp add: pattern2_shape_def)
  from assms have "CHR ''_'' \<notin> set n1" "CHR ''_'' \<notin> set n1'"
    by (simp_all add: pattern2_shape_def is_decimal_no_sep(2))
  from split_unique[OF this e] have 1: "n1 = n1'" and e1: "n2 @ nl = n2' @ nl'"
    by simp_all
  from assms have "CHR 0x0A \<notin> set n2" "CHR 0x0A \<notin> set n2'"
    "nl = [] \<or> nl = [CHR 0x0A]" "nl' = [] \<or> nl' = [CHR 0x0A]"
    by (simp_all add: pattern2_shape_def is_decimal_no_sep(3))
  from split_end_unique[OF this(1,2) e1 this(3,4)] 1 show ?thesis by simp
qed

lemma re_match_pattern2:
  assumes "pattern2_shape s n1 n2 nl"
  shows "re_match pattern2 s = Some [n1, n2]"
proof (rule re_match_unique)
  show "[n1, n2] \<in> set (match_pieces pattern2 s [])"
    using assms pattern2_mem_iff by blast
next
  fix m' assume "m' \<in> set (match_pieces pattern2 s [])"
  then obtain n1' n2' nl' where "pattern2_shape s n1' n2' nl'" "m' = [n1', n2']"
    using pattern2_mem_iff by blast
  with pattern2_shape_unique[OF assms this(1)] show "m' = [n1, n2]" by simp
qed

lemma re_match_pattern2_Some:
  assumes "re_match pattern2 s = Some m"
  shows "\<exists>n1 n2 nl. pattern2_shape s n1 n2 nl \<and> m = [n1, n2]"
  using re_match_Some_mem[OF assms] pattern2_mem_iff by simp

lemma pattern2_shape_no_comma: "pattern2_shape s n1 n2 nl \<Longrightarrow> CHR '','' \<notin> set s"
  by (auto simp: pattern2_shape_def is_decimal_no_sep(1))

lemma strip_id: "\<forall>x\<in>set w. \<not> is_space x \<Longrightarrow> strip w = w"
proof -
  assume a: "\<forall>x\<in>set w. \<not> is_space x"
  have "dropWhile is_space w = w" using a by (cases w) auto
  moreover have "dropWhile is_space (rev w) = rev w" using a by (cases "rev w") auto
  ultimately show ?thesis by (simp add: strip_def)
qed

lemma underscores_ok_none:
  "CHR ''_'' \<notin> set w \<Longrightarrow> prev \<noteq> Some CHR ''_'' \<Longrightarrow> underscores_ok prev w"
  by (induction w arbitrary: prev) auto

lemma digit_not_space: "is_digit x \<Longrightarrow> \<not> is_space x"
  by (auto simp: is_digit_def is_space_def)

lemma sign_point_not_space: "\<not> is_space CHR ''-''" "\<not> is_space CHR ''.''"
  by (simp_all add: is_space_def)

lemma lower_word_digit:
  assumes "is_digit d"
  shows "lower_word (d # r) \<noteq> ''inf''" "lower_word (d # r) \<noteq> ''infinity''"
    "lower_word (d # r) \<noteq> ''nan''"
  using assms by (auto simp: lower_word_def is_digit_def)

lemma filter_digits: "list_all is_digit ds \<Longrightarrow> filter is_digit ds = ds"
  by (induction ds) auto

lemma py_float_decimal:
  assumes "is_decimal w"
  shows "py_float w = Inr (decimal_double w)"
proof -
  from assms obtain sg ds pt frs where w: "w = sg @ ds @ pt @ frs"
    and sg: "sg = [] \<or> sg = ''-''" and ds: "ds \<noteq> []" "list_all is_digit ds"
    and pt: "pt = [] \<or> pt = ''.''" and frs: "list_all is_digit frs"
    unfolding number_shape_is_decimal[symmetric] number_shape_def by blast
  obtain d ds' where d: "ds = d # ds'" "is_digit d" using ds by (cases ds) auto
  have chars: "\<And>x. x \<in> set w \<Longrightarrow> is_digit x \<or> x = CHR ''-'' \<or> x = CHR ''.''"
    using is_decimal_chars[OF assms] .
  have nsp: "\<forall>x\<in>set w. \<not> is_space x"
    using chars digit_not_space sign_point_not_space by blast
  have nus: "CHR ''_'' \<notin> set w" using is_decimal_no_sep(2)[OF assms] .
  have 1: "strip w = w" using nsp by (rule strip_id)
  have 2: "underscores_ok None w" using nus by (simp add: underscores_ok_none)
  have 3: "filter (\<lambda>c. c \<noteq> CHR ''_'') w = w" using nus by (auto simp: filter_id_conv)
  define u where "u = ds @ pt @ frs"
  have dm: "d \<noteq> CHR ''-''" "d \<noteq> CHR ''+''" using d(2) by (auto simp: is_digit_def)
  have 4: "take_sign w = (sg = ''-'', u)"
    using sg w d dm by (auto simp: take_sign_def u_def)
  have 5: "lower_word u \<noteq> ''inf''" "lower_word u \<noteq> ''infinity''" "lower_word u \<noteq> ''nan''"
    unfolding u_def d(1) using lower_word_digit[OF d(2)] by simp_all
  have neg: "(w \<noteq> [] \<and> hd w = CHR ''-'') = (sg = ''-'')"
    using sg w d dm by auto
  have fd: "filter is_digit w = ds @ frs"
    using sg pt w ds frs by (auto simp: filter_digits)
  show ?thesis
  proof (cases "pt = []")
    case True
    have ip: "takeWhile is_digit u = ds @ frs" "dropWhile is_digit u = []"
      using True ds frs by (simp_all add: u_def takeWhile_digits_append takeWhile_digits_all
          dropWhile_digits_append dropWhile_digits_all)
    have nd: "CHR ''.'' \<notin> set w"
      using True sg w ds frs by (auto simp: list_all_iff)
    then have dw: "dropWhile (\<lambda>c. c \<noteq> CHR ''.'') w = []" by auto
    have dd: "decimal_double w = double_of_decimal (sg = ''-'') (nat_of_digits (ds @ frs)) 0"
      unfolding decimal_double_def dw neg fd by simp
    show ?thesis
      unfolding py_float_def Let_def 1 3 4 dd
      using 2 5 ds by (simp add: exponent_part_def ip)
  next
    case False
    then have p: "pt = ''.''" using pt by simp
    have ip: "takeWhile is_digit u = ds" "dropWhile is_digit u = ''.'' @ frs"
      using p ds frs by (simp_all add: u_def takeWhile_digits_append dropWhile_digits_append)
    have fp: "takeWhile is_digit frs = frs" "dropWhile is_digit frs = []"
      using frs by (simp_all add: takeWhile_digits_all dropWhile_digits_all)
    have dw: "dropWhile (\<lambda>c. c \<noteq> CHR ''.'') w = ''.'' @ frs"
    proof -
      have "\<forall>x\<in>set (sg @ ds). x \<noteq> CHR ''.''" using sg ds by (auto simp: list_all_iff)
      then have "dropWhile (\<lambda>c. c \<noteq> CHR ''.'') ((sg @ ds) @ ''.'' @ frs) = ''.'' @ frs"
        by (subst dropWhile_append2) auto
      then show ?thesis using w p by simp
    qed
    have dd: "decimal_double w =
        double_of_decimal (sg = ''-'') (nat_of_digits (ds @ frs)) (- int (length frs))"
      unfolding decimal_double_def dw neg fd by simp
    show ?thesis
      unfolding py_float_def Let_def 1 3 4 dd
      using 2 5 ds by (simp add: exponent_part_def ip fp)
  qed
qed

lemma rfind_notin: "c \<notin> set s \<Longrightarrow> rfind c s = - 1"
  by (simp add: rfind_def)

lemma rfind_last: "c \<notin> set e \<Longrightarrow> rfind c (a @ c # e) = int (length a)"
proof -
  assume "c \<notin> set e"
  then have "takeWhile (\<lambda>x. x \<noteq> c) (rev e @ c # rev a) = rev e"
    by (subst takeWhile_tail) auto
  then show ?thesis by (simp add: rfind_def)
qed

lemma rfind_cases:
  obtains "c \<notin> set s" "rfind c s = - 1"
  | a e where "s = a @ c # e" "c \<notin> set e" "rfind c s = int (length a)"
proof (cases "c \<in> set s")
  case False
  then show ?thesis using that(1) rfind_notin by blast
next
  case True
  then obtain a e where "s = a @ c # e" "c \<notin> set e" by (meson split_list_last)
  then show ?thesis using that(2) rfind_last by blast
qed

lemma rfind_lt_length: "rfind c s < int (length s)"
  by (rule rfind_cases[of c s]) auto

lemma rfind_append_ge:
  assumes "c \<in> set e"
  shows "int (length a) \<le> rfind c (a @ e)"
proof -
  from assms obtain e1 e2 where e: "e = e1 @ c # e2" "c \<notin> set e2" by (meson split_list_last)
  then have "rfind c ((a @ e1) @ c # e2) = int (length (a @ e1))" by (rule_tac rfind_last)
  then show ?thesis using e by simp
qed

lemma splitext_cases:
  obtains "splitext p = (p, [])"
  | a e where "p = a @ CHR ''.'' # e" "CHR ''.'' \<notin> set e" "CHR ''/'' \<notin> set e"
      "splitext p = (a, CHR ''.'' # e)"
proof (cases "splitext p = (p, [])")
  case True
  then show ?thesis using that(1) by blast
next
  case False
  then have gt: "rfind CHR ''/'' p < rfind CHR ''.'' p"
    and sp: "splitext p = (take (nat (rfind CHR ''.'' p)) p, drop (nat (rfind CHR ''.'' p)) p)"
    by (auto simp: splitext_def Let_def split: if_splits)
  show ?thesis
  proof (rule rfind_cases[of "CHR ''.''" p])
    assume "rfind CHR ''.'' p = - 1"
    moreover have "- 1 \<le> rfind CHR ''/'' p" by (rule rfind_cases[of "CHR ''/''" p]) auto
    ultimately show ?thesis using gt by simp
  next
    fix a e assume p: "p = a @ CHR ''.'' # e" "CHR ''.'' \<notin> set e"
      and r: "rfind CHR ''.'' p = int (length a)"
    have "CHR ''/'' \<notin> set e"
    proof
      assume "CHR ''/'' \<in> set e"
      then have "int (length (a @ [CHR ''.''])) \<le> rfind CHR ''/'' ((a @ [CHR ''.'']) @ e)"
        by (rule rfind_append_ge)
      then show False using gt r p by simp
    qed
    moreover have "splitext p = (a, CHR ''.'' # e)" using sp r p by simp
    ultimately show ?thesis using that(2) p by blast
  qed
qed

lemma fst_splitext_take: "\<exists>k. fst (splitext p) = take k p"
proof (rule splitext_cases[of p])
  assume "splitext p = (p, [])"
  then show ?thesis by (intro exI[of _ "length p"]) simp
next
  fix a e assume "p = a @ CHR ''.'' # e" "splitext p = (a, CHR ''.'' # e)"
  then show ?thesis by (intro exI[of _ "length a"]) simp
qed

lemma fst_splitext_subset: "set (fst (splitext p)) \<subseteq> set p"
  using fst_splitext_take[of p] by (metis set_take_subset)

lemma splitext_append_ext:
  assumes "a \<noteq> []" "last a \<noteq> CHR ''.''" "last a \<noteq> CHR ''/''"
    "CHR ''.'' \<notin> set e" "CHR ''/'' \<notin> set e"
  shows "splitext (a @ CHR ''.'' # e) = (a, CHR ''.'' # e)"
proof -
  define p where "p = a @ CHR ''.'' # e"
  obtain a0 l where a: "a = a0 @ [l]" "l \<noteq> CHR ''.''" "l \<noteq> CHR ''/''"
    using assms(1-3) by (metis append_butlast_last_id)
  have dot: "rfind CHR ''.'' p = int (length a)"
    unfolding p_def using assms(4) by (rule rfind_last)
  have sep: "- 1 \<le> rfind CHR ''/'' p \<and> rfind CHR ''/'' p < int (length a0)"
  proof (cases "CHR ''/'' \<in> set a0")
    case False
    then have "CHR ''/'' \<notin> set p" using a assms(5) by (auto simp: p_def)
    then show ?thesis by (simp add: rfind_notin)
  next
    case True
    then obtain b b' where b: "a0 = b @ CHR ''/'' # b'" "CHR ''/'' \<notin> set b'"
      by (meson split_list_last)
    then have "CHR ''/'' \<notin> set (b' @ [l] @ CHR ''.'' # e)" using a assms(5) by auto
    then have "rfind CHR ''/'' (b @ CHR ''/'' # (b' @ [l] @ CHR ''.'' # e)) = int (length b)"
      by (rule rfind_last)
    then show ?thesis using b a by (simp add: p_def)
  qed
  define k where "k = nat (rfind CHR ''/'' p + 1)"
  have k: "k \<le> length a0" using sep unfolding k_def by linarith
  have "take (nat (rfind CHR ''.'' p - (rfind CHR ''/'' p + 1))) (drop k p)
      = drop k a0 @ [l]"
  proof -
    have "nat (rfind CHR ''.'' p - (rfind CHR ''/'' p + 1)) = length a0 + 1 - k"
      using sep dot a unfolding k_def by (simp add: nat_diff_distrib' nat_add_distrib) linarith
    moreover have "drop k p = drop k a0 @ [l] @ CHR ''.'' # e"
      using k a by (simp add: p_def)
    ultimately show ?thesis using k by simp
  qed
  then have ex: "list_ex (\<lambda>x. x \<noteq> CHR ''.'')
      (take (nat (rfind CHR ''.'' p - (rfind CHR ''/'' p + 1))) (drop k p))"
    using a(2) by simp
  have "rfind CHR ''/'' p < rfind CHR ''.'' p" using sep dot a by simp
  then have "splitext p = (take (length a) p, drop (length a) p)"
    using ex dot by (simp add: splitext_def Let_def k_def)
  then show ?thesis by (simp add: p_def)
qed

lemma is_digit_digit_char: "is_digit (digit_char d)"
  unfolding is_digit_def digit_char_def by (rule nth_mem) simp

lemma show_nat_digits: "list_all is_digit (show_nat n)"
proof (induction n rule: show_nat.induct)
  case (1 n)
  then show ?case
    by (subst show_nat.simps) (simp add: is_digit_digit_char)
qed

lemma show_nat_nonempty: "show_nat n \<noteq> []"
  by (subst show_nat.simps) simp

lemma six_digits_digits: "list_all is_digit (six_digits k)" "length (six_digits k) = 6"
  by (simp_all add: six_digits_def is_digit_digit_char)

lemma comma_not_digit: "list_all is_digit ds \<Longrightarrow> CHR '','' \<notin> set ds"
  by (auto simp: list_all_iff)

lemma sign_str_no_comma: "CHR '','' \<notin> set (sign_str neg)"
  by (simp add: sign_str_def)

lemma has_six_decimals_shape:
  assumes "ip \<noteq> []" "list_all is_digit ip" "length fr = 6" "list_all is_digit fr"
  shows "has_six_decimals (sign_str neg @ ip @ ''.'' @ fr)"
proof -
  obtain d ip' where d: "ip = d # ip'" "is_digit d" using assms(1,2) by (cases ip) auto
  then have dm: "d \<noteq> CHR ''-''" by auto
  have u: "(case sign_str neg @ ip @ ''.'' @ fr of [] \<Rightarrow> []
      | c # r \<Rightarrow> if c = CHR ''-'' then r else sign_str neg @ ip @ ''.'' @ fr) = ip @ ''.'' @ fr"
    using d dm by (cases neg) (simp_all add: sign_str_def)
  have t: "takeWhile is_digit (ip @ ''.'' @ fr) = ip" "dropWhile is_digit (ip @ ''.'' @ fr) = ''.'' @ fr"
    using assms(2) by (simp_all add: takeWhile_digits_append dropWhile_digits_append)
  show ?thesis unfolding has_six_decimals_def Let_def u t using assms by simp
qed

lemma format_f6_six_decimals: "has_six_decimals (format_f6 (Finite neg m e))"
  unfolding format_f6.simps Let_def
  by (rule has_six_decimals_shape)
    (simp_all add: show_nat_nonempty show_nat_digits six_digits_digits)

lemma format_f6_no_comma: "CHR '','' \<notin> set (format_f6 x)"
proof (cases x)
  case (Finite neg m e)
  then show ?thesis
    using comma_not_digit[OF show_nat_digits] comma_not_digit[OF six_digits_digits(1)]
    by (simp add: Let_def sign_str_no_comma)
next
  case (Infinity neg)
  then show ?thesis by (simp add: sign_str_no_comma)
next
  case NaN
  then show ?thesis by simp
qed

lemma repr_layout_no_comma:
  assumes "CHR '','' \<notin> set ds"
  shows "CHR '','' \<notin> set (repr_layout ds decpt)"
  using assms comma_not_digit[OF show_nat_digits]
  by (auto simp: repr_layout_def dest: in_set_takeD in_set_dropD)

lemma repr_digits_no_comma: "CHR '','' \<notin> set (fst (repr_digits neg m e))"
proof -
  have "\<And>c. CHR '','' \<notin> set (rev (dropWhile (\<lambda>x. x = CHR ''0'') (rev (show_nat c))))"
    using comma_not_digit[OF show_nat_digits] by (auto dest: set_dropWhileD)
  then show ?thesis
    by (simp add: repr_digits_def Let_def split: prod.splits option.splits)
qed

lemma float_repr_no_comma: "CHR '','' \<notin> set (float_repr x)"
proof (cases x)
  case (Finite neg m e)
  obtain ds decpt where r: "repr_digits neg m e = (ds, decpt)" by (cases "repr_digits neg m e")
  then have "CHR '','' \<notin> set ds" using repr_digits_no_comma[of neg m e] by simp
  then show ?thesis
    using Finite r repr_layout_no_comma by (simp add: sign_str_no_comma)
next
  case (Infinity neg)
  then show ?thesis by (simp add: sign_str_no_comma)
next
  case NaN
  then show ?thesis by simp
qed

lemma parse_pattern1:
  assumes "pattern1_shape (fst (splitext f)) idt n1 n2 rest"
  shows "parse_filename f =
    Inr (Some \<lparr>image_id = idt, lat = decimal_double n1, lon = decimal_double n2,
               is_query = True, ext = snd (splitext f)\<rparr>)"
proof -
  from assms have "is_decimal n1" "is_decimal n2" by (simp_all add: pattern1_shape_def)
  then show ?thesis
    by (simp add: parse_filename_def Let_def re_match_pattern1[OF assms] group_of_def
        py_float_decimal)
qed

lemma parse_pattern2:
  assumes "pattern2_shape (fst (splitext f)) n1 n2 nl"
  shows "parse_filename f =
    Inr (Some \<lparr>image_id = coords_id (decimal_double n1) (decimal_double n2),
               lat = decimal_double n1, lon = decimal_double n2,
               is_query = False, ext = snd (splitext f)\<rparr>)"
proof -
  from assms have "is_decimal n1" "is_decimal n2" by (simp_all add: pattern2_shape_def)
  moreover have "re_match pattern1 (fst (splitext f)) = None"
    using pattern2_shape_no_comma[OF assms] by (rule re_match_pattern1_comma)
  ultimately show ?thesis
    by (simp add: parse_filename_def Let_def re_match_pattern2[OF assms] group_of_def
        py_float_decimal coords_id_def)
qed

lemma parse_unmatched:
  assumes "re_match pattern1 (fst (splitext f)) = None"
    "re_match pattern2 (fst (splitext f)) = None"
  shows "parse_filename f = Inr None"
  using assms by (simp add: parse_filename_def Let_def)

lemma parse_filename_cases:
  obtains (A) idt n1 n2 rest where "pattern1_shape (fst (splitext f)) idt n1 n2 rest"
  | (B) n1 n2 nl where "pattern2_shape (fst (splitext f)) n1 n2 nl"
  | (N) "re_match pattern1 (fst (splitext f)) = None" "re_match pattern2 (fst (splitext f)) = None"
proof (cases "re_match pattern1 (fst (splitext f))")
  case (Some m)
  then show ?thesis using re_match_pattern1_Some A by blast
next
  case None
  show ?thesis
  proof (cases "re_match pattern2 (fst (splitext f))")
    case (Some m)
    then show ?thesis using re_match_pattern2_Some B by blast
  next
    case n2: None
    with None show ?thesis using N by blast
  qed
qed

lemma parse_filename_no_exception: "parse_filename f \<noteq> Inl exn"
  by (rule parse_filename_cases[of f])
    (simp_all add: parse_pattern1 parse_pattern2 parse_unmatched)

lemma replace_remove_no_comma:
  "CHR '','' \<notin> set s \<Longrightarrow> CHR '','' \<notin> set (replace_char CHR ''-'' CHR ''n'' (remove_char CHR ''.'' s))"
  by (auto simp: replace_char_def remove_char_def)

lemma coords_id_no_comma: "CHR '','' \<notin> set (coords_id la lo)"
  unfolding coords_id_def
  by (rule replace_remove_no_comma) (simp add: float_repr_no_comma)

lemma parse_filename_Some:
  assumes "parse_filename f = Inr (Some info)"
  shows "CHR '','' \<notin> set (image_id info) \<and> ext info = snd (splitext f)"
proof (rule parse_filename_cases[of f])
  fix idt n1 n2 rest assume a: "pattern1_shape (fst (splitext f)) idt n1 n2 rest"
  then have "CHR '','' \<notin> set idt" by (simp add: pattern1_shape_def)
  then show ?thesis using assms parse_pattern1[OF a] by auto
next
  fix n1 n2 nl assume a: "pattern2_shape (fst (splitext f)) n1 n2 nl"
  show ?thesis using assms parse_pattern2[OF a] coords_id_no_comma by auto
next
  assume "re_match pattern1 (fst (splitext f)) = None"
    "re_match pattern2 (fst (splitext f)) = None"
  then show ?thesis using assms parse_unmatched by simp
qed

lemma generate_stem: "generate_new_filename info ok = new_stem info ok @ ext info"
  by (simp add: generate_new_filename_def new_stem_def Let_def)

lemma new_stem_props:
  assumes "CHR '','' \<notin> set (image_id info)"
  shows "CHR '','' \<notin> set (new_stem info ok)" "new_stem info ok \<noteq> []"
    "last (new_stem info ok) \<noteq> CHR ''.''" "last (new_stem info ok) \<noteq> CHR ''/''"
    "hd (new_stem info ok) = CHR ''_''"
  using assms by (simp_all add: new_stem_def format_f6_no_comma)

lemma re_match_pattern2_underscore:
  assumes "s = [] \<or> hd s = CHR ''_''"
  shows "re_match pattern2 s = None"
proof (cases "re_match pattern2 s")
  case None
  then show ?thesis .
next
  case (Some m)
  from re_match_pattern2_Some[OF this] assms show ?thesis
    by (auto simp: pattern2_shape_def)
qed

lemma generated_unparsed:
  assumes "parse_filename f = Inr (Some info)"
  shows "parse_filename (generate_new_filename info ok) = Inr None"
proof -
  define g where "g = generate_new_filename info ok"
  define stem where "stem = new_stem info ok"
  from parse_filename_Some[OF assms]
  have nc: "CHR '','' \<notin> set (image_id info)" and e: "ext info = snd (splitext f)" by simp_all
  note sp = new_stem_props[OF nc, of ok, folded stem_def]
  have g: "g = stem @ ext info" by (simp add: g_def stem_def generate_stem)
  have base: "CHR '','' \<notin> set (fst (splitext g))"
  proof (rule splitext_cases[of f])
    assume "splitext f = (f, [])"
    then have "g = stem" using g e by simp
    then show ?thesis using fst_splitext_subset[of g] sp(1) by auto
  next
    fix a x assume "CHR ''.'' \<notin> set x" "CHR ''/'' \<notin> set x" "splitext f = (a, CHR ''.'' # x)"
    then have "splitext g = (stem, CHR ''.'' # x)"
      using g e splitext_append_ext[OF sp(2,3,4)] by simp
    then show ?thesis using sp(1) by simp
  qed
  have "fst (splitext g) = [] \<or> hd (fst (splitext g)) = CHR ''_''"
  proof -
    obtain k where k: "fst (splitext g) = take k g" using fst_splitext_take by blast
    have "g \<noteq> []" "hd g = CHR ''_''" using g sp(2,5) by simp_all
    then show ?thesis unfolding k by (cases g; cases k) simp_all
  qed
  then have "re_match pattern2 (fst (splitext g)) = None"
    by (rule re_match_pattern2_underscore)
  moreover have "re_match pattern1 (fst (splitext g)) = None"
    using base by (rule re_match_pattern1_comma)
  ultimately show ?thesis unfolding g_def[symmetric] by (simp add: parse_unmatched)
qed

lemma process_path_skip_ineligible:
  "\<not> eligible (fs st) p \<Longrightarrow> process_path fault dry_run ds p st = Inr st"
  by (auto simp: process_path_def eligible_def)

lemma process_path_unparsed:
  assumes "eligible (fs st) p" "parse_filename (path_name p) = Inr None"
  shows "process_path fault dry_run ds p st =
    Inr (st\<lparr>total_files := total_files st + 1, skipped_files := skipped_files st + 1,
            out := out st @ [Skip_unparsed (path_name p)]\<rparr>)"
  using assms by (simp add: process_path_def eligible_def Let_def say_def)

lemma process_path_collision:
  assumes "eligible (fs st) p" "parse_filename (path_name p) = Inr (Some info)"
    "path_exists (fs st) (new_path_of ds p info)" "new_path_of ds p info \<noteq> p"
  shows "process_path fault dry_run ds p st =
    Inr (st\<lparr>total_files := total_files st + 1, skipped_files := skipped_files st + 1,
            out := out st @ [Skip_exists (path_name p)]\<rparr>)"
  using assms by (simp add: process_path_def eligible_def Let_def say_def new_path_of_def)

lemma process_path_preview:
  assumes "eligible (fs st) p" "parse_filename (path_name p) = Inr (Some info)"
    "\<not> (path_exists (fs st) (new_path_of ds p info) \<and> new_path_of ds p info \<noteq> p)"
  shows "process_path fault True ds p st =
    Inr (st\<lparr>total_files := total_files st + 1, renamed_files := renamed_files st + 1,
            out := out st @ [rename_info ds p info, Preview_only]\<rparr>)"
  using assms
  by (auto simp: process_path_def eligible_def Let_def say_def new_path_of_def rename_info_def)

lemma process_path_renamed:
  assumes "eligible (fs st) p" "parse_filename (path_name p) = Inr (Some info)"
    "\<not> (path_exists (fs st) (new_path_of ds p info) \<and> new_path_of ds p info \<noteq> p)"
    "os_rename fault (fs st) p (new_path_of ds p info) = Inr f'"
  shows "process_path fault False ds p st =
    Inr (st\<lparr>fs := f', total_files := total_files st + 1, renamed_files := renamed_files st + 1,
            out := out st @ [rename_info ds p info, Rename_ok]\<rparr>)"
  using assms
  by (auto simp: process_path_def eligible_def Let_def say_def new_path_of_def rename_info_def)

lemma process_path_rename_failed:
  assumes "eligible (fs st) p" "parse_filename (path_name p) = Inr (Some info)"
    "\<not> (path_exists (fs st) (new_path_of ds p info) \<and> new_path_of ds p info \<noteq> p)"
    "os_rename fault (fs st) p (new_path_of ds p info) = Inl exn"
  shows "process_path fault False ds p st =
    Inr (st\<lparr>total_files := total_files st + 1, skipped_files := skipped_files st + 1,
            out := out st @ [rename_info ds p info, Rename_failed exn]\<rparr>)"
  using assms
  by (auto simp: process_path_def eligible_def Let_def say_def new_path_of_def rename_info_def)

text \<open>The six ways through the loop body.\<close>

lemma process_path_cases:
  obtains (ineligible) "\<not> eligible (fs st) p" "process_path fault dry_run ds p st = Inr st"
  | (unparsed) "eligible (fs st) p" "parse_filename (path_name p) = Inr None"
      "process_path fault dry_run ds p st =
        Inr (st\<lparr>total_files := total_files st + 1, skipped_files := skipped_files st + 1,
                out := out st @ [Skip_unparsed (path_name p)]\<rparr>)"
  | (collision) info where "eligible (fs st) p" "parse_filename (path_name p) = Inr (Some info)"
      "path_exists (fs st) (new_path_of ds p info)" "new_path_of ds p info \<noteq> p"
      "process_path fault dry_run ds p st =
        Inr (st\<lparr>total_files := total_files st + 1, skipped_files := skipped_files st + 1,
                out := out st @ [Skip_exists (path_name p)]\<rparr>)"
  | (preview) info where "dry_run" "would_rename ds (fs st) p"
      "parse_filename (path_name p) = Inr (Some info)"
      "process_path fault dry_run ds p st =
        Inr (st\<lparr>total_files := total_files st + 1, renamed_files := renamed_files st + 1,
                out := out st @ [rename_info ds p info, Preview_only]\<rparr>)"
  | (renamed) info f' where "\<not> dry_run" "would_rename ds (fs st) p"
      "parse_filename (path_name p) = Inr (Some info)"
      "os_rename fault (fs st) p (new_path_of ds p info) = Inr f'"
      "process_path fault dry_run ds p st =
        Inr (st\<lparr>fs := f', total_files := total_files st + 1,
                renamed_files := renamed_files st + 1,
                out := out st @ [rename_info ds p info, Rename_ok]\<rparr>)"
  | (failed) info exn where "\<not> dry_run" "would_rename ds (fs st) p"
      "parse_filename (path_name p) = Inr (Some info)"
      "os_rename fault (fs st) p (new_path_of ds p info) = Inl exn"
      "process_path fault dry_run ds p st =
        Inr (st\<lparr>total_files := total_files st + 1, skipped_files := skipped_files st + 1,
                out := out st @ [rename_info ds p info, Rename_failed exn]\<rparr>)"
proof (cases "eligible (fs st) p")
  case False
  then show ?thesis using ineligible process_path_skip_ineligible by blast
next
  case el: True
  show ?thesis
  proof (cases "parse_filename (path_name p)")
    case (Inl exn)
    then show ?thesis using parse_filename_no_exception by blast
  next
    case (Inr r)
    show ?thesis
    proof (cases r)
      case None
      then show ?thesis using unparsed el Inr process_path_unparsed by blast
    next
      case (Some info)
      then have pr: "parse_filename (path_name p) = Inr (Some info)" using Inr by simp
      show ?thesis
      proof (cases "path_exists (fs st) (new_path_of ds p info) \<and> new_path_of ds p info \<noteq> p")
        case True
        then show ?thesis using collision el pr process_path_collision by blast
      next
        case nc: False
        then have wr: "would_rename ds (fs st) p"
          using el pr by (simp add: would_rename_def eligible_def new_path_of_def Let_def)
        show ?thesis
        proof (cases dry_run)
          case True
          then show ?thesis using preview wr pr process_path_preview[OF el pr nc, of fault] by simp
        next
          case nd: False
          show ?thesis
          proof (cases "os_rename fault (fs st) p (new_path_of ds p info)")
            case (Inl exn)
            then show ?thesis
              using failed nd wr pr process_path_rename_failed[OF el pr nc Inl] by simp
          next
            case (Inr f')
            then show ?thesis
              using renamed nd wr pr process_path_renamed[OF el pr nc Inr] by simp
          qed
        qed
      qed
    qed
  qed
qed

lemma would_rename_not:
  assumes "eligible f p" "parse_filename (path_name p) = Inr (Some info)"
    "path_exists f (new_path_of ds p info)" "new_path_of ds p info \<noteq> p"
  shows "\<not> would_rename ds f p"
  using assms by (simp add: would_rename_def new_path_of_def Let_def)

lemma would_rename_eligible: "would_rename ds f p \<Longrightarrow> eligible f p"
  by (simp add: would_rename_def eligible_def)

lemma process_path_total: "\<exists>st'. process_path fault dry_run ds p st = Inr st'"
  by (rule process_path_cases[of st p fault dry_run ds]) simp_all


lemma walk_total: "\<exists>st'. walk fault dry_run ds ps st = Inr st'"
proof (induction ps arbitrary: st)
  case Nil
  then show ?case by simp
next
  case (Cons p ps)
  obtain st1 where "process_path fault dry_run ds p st = Inr st1"
    using process_path_total by blast
  then show ?case using Cons.IH[of st1] by simp
qed


lemma process_path_dry:
  assumes "process_path fault True ds p st = Inr st'"
  shows "fs st' = fs st \<and>
    renamed_files st' = renamed_files st + (if would_rename ds (fs st) p then 1 else 0)"
proof (rule process_path_cases[of st p fault True ds])
  assume "\<not> eligible (fs st) p" "process_path fault True ds p st = Inr st"
  then show ?thesis using assms would_rename_eligible by auto
next
  assume "eligible (fs st) p" "parse_filename (path_name p) = Inr None"
    "process_path fault True ds p st =
      Inr (st\<lparr>total_files := total_files st + 1, skipped_files := skipped_files st + 1,
              out := out st @ [Skip_unparsed (path_name p)]\<rparr>)"
  then show ?thesis using assms by (auto simp: would_rename_def)
next
  fix info assume "eligible (fs st) p" "parse_filename (path_name p) = Inr (Some info)"
    "path_exists (fs st) (new_path_of ds p info)" "new_path_of ds p info \<noteq> p"
    "process_path fault True ds p st =
      Inr (st\<lparr>total_files := total_files st + 1, skipped_files := skipped_files st + 1,
              out := out st @ [Skip_exists (path_name p)]\<rparr>)"
  then show ?thesis using assms would_rename_not by auto
next
  fix info assume "would_rename ds (fs st) p"
    "process_path fault True ds p st =
      Inr (st\<lparr>total_files := total_files st + 1, renamed_files := renamed_files st + 1,
              out := out st @ [rename_info ds p info, Preview_only]\<rparr>)"
  then show ?thesis using assms by auto
qed simp_all

lemma walk_dry:
  assumes "walk fault True ds ps st = Inr st'"
  shows "fs st' = fs st \<and>
    renamed_files st' = renamed_files st + length (filter (would_rename ds (fs st)) ps)"
  using assms
proof (induction ps arbitrary: st)
  case Nil
  then show ?case by simp
next
  case (Cons p ps)
  obtain st1 where s: "process_path fault True ds p st = Inr st1"
    using process_path_total by blast
  note d = process_path_dry[OF s]
  have "walk fault True ds ps st1 = Inr st'" using Cons.prems s by simp
  from Cons.IH[OF this] d show ?case by simp
qed

subsection \<open>Evaluation on numerals\<close>

lemma bitlen_0: "bitlen 0 = 0"
  by (simp add: bitlen.simps)

lemma bitlen_1: "bitlen (Suc 0) = 1"
  by (simp add: bitlen.simps)

lemma bitlen_Bit0: "bitlen (numeral (Num.Bit0 k)) = 1 + bitlen (numeral k)"
  by (subst bitlen.simps) (simp del: One_nat_def add: numeral_Bit0_div_2)

lemma bitlen_Bit1: "bitlen (numeral (Num.Bit1 k)) = 1 + bitlen (numeral k)"
  by (subst bitlen.simps) (simp del: One_nat_def add: numeral_Bit1_div_2)

lemma show_nat_numeral:
  "show_nat (numeral k) =
     (if numeral k < (10::nat) then [digit_char (numeral k)]
      else show_nat (numeral k div 10) @ [digit_char (numeral k)])"
  by (rule show_nat.simps)

lemma show_nat_0: "show_nat 0 = ''0''"
  by (simp add: show_nat.simps digit_char_def)

lemma show_nat_1: "show_nat (Suc 0) = ''1''"
  by (simp add: show_nat.simps digit_char_def)

lemmas float_eval =
  numeral_2_eq_2 [symmetric] numeral_3_eq_3 [symmetric]
  bitlen_0 bitlen_1 bitlen_Bit0 bitlen_Bit1 show_nat_numeral show_nat_0 show_nat_1
  py_float_def strip_def is_space_def is_digit_def take_sign_def lower_word_def
  exponent_part_def nat_of_digits_def digit_val_def double_of_decimal_def double_of_ratio_def
  ge_pow2_def round_scaled_def round_half_even_def six_digits_def digit_char_def
  sign_str_def decimal_double_def

lemmas repr_eval =
  repr_digits_def repr_candidate_def dec_exp_def repr_layout_def

lemmas name_eval = splitext_def rfind_def is_decimal_def is_digit_def Let_def

subsection \<open>The example tree\<close>

lemma decimal_double_1: "decimal_double ''1'' = Finite False 4503599627370496 (- 52)"
  by (simp add: float_eval)

lemma decimal_double_2: "decimal_double ''2'' = Finite False 4503599627370496 (- 51)"
  by (simp add: float_eval)

lemma decimal_double_example_lat:
  "decimal_double ''37.788169'' = Finite False 5318211994606667 (- 47)"
  by (simp add: float_eval)

lemma decimal_double_example_lon:
  "decimal_double ''-122.400728'' = Finite True 8613185515791835 (- 46)"
  by (simp add: float_eval)

lemma parse_demo_a: "parse_filename ''a,1,2,.jpg'' = Inr (Some demo_info)"
proof -
  have "pattern1_shape (fst (splitext ''a,1,2,.jpg'')) ''a'' ''1'' ''2'' []"
    by (simp add: pattern1_shape_def name_eval)
  from parse_pattern1[OF this] show ?thesis
    by (simp add: decimal_double_1 decimal_double_2 demo_info_def name_eval)
qed

lemma parse_demo_b: "parse_filename ''a,1,2,x.jpg'' = Inr (Some demo_info)"
proof -
  have "pattern1_shape (fst (splitext ''a,1,2,x.jpg'')) ''a'' ''1'' ''2'' ''x''"
    by (simp add: pattern1_shape_def name_eval)
  from parse_pattern1[OF this] show ?thesis
    by (simp add: decimal_double_1 decimal_double_2 demo_info_def name_eval)
qed

lemma parse_demo_c: "parse_filename ''photo001.jpg'' = Inr None"
proof -
  have "re_match pattern1 (fst (splitext ''photo001.jpg'')) = None"
    by (rule re_match_pattern1_comma) (simp add: name_eval)
  moreover have "re_match pattern2 (fst (splitext ''photo001.jpg'')) = None"
    by (simp add: name_eval re_match_def pattern2_def lits_def)
  ultimately show ?thesis by (rule parse_unmatched)
qed

lemma generate_demo:
  "generate_new_filename demo_info True = ''_a_query@1.000000@2.000000@success.jpg''"
  by (simp add: generate_new_filename_def demo_info_def float_eval)

lemma demo_paths:
  "path_name demo_a = ''a,1,2,.jpg''" "path_name demo_b = ''a,1,2,x.jpg''"
  "path_name demo_c = ''photo001.jpg''"
  "path_suffix demo_a = ''.jpg''" "path_suffix demo_b = ''.jpg''" "path_suffix demo_c = ''.jpg''"
  "new_path_of ''success'' demo_a demo_info = demo_new"
  "new_path_of ''success'' demo_b demo_info = demo_new"
  by (simp_all add: demo_a_def demo_b_def demo_c_def demo_new_def path_name_def path_suffix_def
      rfind_def new_path_of_def path_join_def path_parent_def generate_demo)

lemma demo_parsed:
  "parse_filename (path_name demo_a) = Inr (Some demo_info)"
  "parse_filename (path_name demo_b) = Inr (Some demo_info)"
  "parse_filename (path_name demo_c) = Inr None"
  by (simp_all add: demo_paths parse_demo_a parse_demo_b parse_demo_c)

lemma demo_distinct:
  "demo_a \<noteq> demo_b" "demo_a \<noteq> demo_c" "demo_b \<noteq> demo_c" "demo_new \<noteq> demo_a"
  "demo_new \<noteq> demo_b" "demo_new \<noteq> demo_c" "demo_root \<noteq> demo_a" "demo_root \<noteq> demo_b"
  "demo_root \<noteq> demo_c" "demo_root \<noteq> demo_new"
  by (simp_all add: demo_a_def demo_b_def demo_c_def demo_new_def demo_root_def)

lemma demo_fs_at:
  "demo_fs demo_root = Some Dir" "demo_fs demo_a = Some (File 1)" "demo_fs demo_b = Some (File 2)"
  "demo_fs demo_c = Some (File 3)" "demo_fs demo_new = None"
  using demo_distinct by (simp_all add: demo_fs_def)

lemma demo_eligible:
  "eligible demo_fs demo_a" "eligible demo_fs demo_b" "eligible demo_fs demo_c"
  by (simp_all add: eligible_def is_file_def demo_fs_at demo_paths image_extensions_def)

lemma demo_initial:
  "eligible (fs (initial_state demo_fs)) demo_a" "eligible (fs (initial_state demo_fs)) demo_b"
  "eligible (fs (initial_state demo_fs)) demo_c"
  "\<not> path_exists (fs (initial_state demo_fs)) demo_new"
  "path_exists demo_fs demo_root"
  by (simp_all add: initial_state_def demo_eligible path_exists_def demo_fs_at)

subsection \<open>Renames and collisions\<close>

lemma os_rename_Inr:
  assumes "os_rename fault f src dst = Inr f'"
  shows "\<exists>n. f src = Some n \<and> f' = f(src := None, dst \<mapsto> n)"
  using assms by (auto simp: os_rename_def split: option.splits)

lemma path_name_join: "path_name (path_join d n) = n"
  by (simp add: path_name_def path_join_def)

lemma new_path_differs:
  assumes "parse_filename (path_name p) = Inr (Some info)"
  shows "new_path_of ds p info \<noteq> p"
proof
  assume "new_path_of ds p info = p"
  then have "path_name p = generate_new_filename info (ds = ''success'')"
    by (metis new_path_of_def path_name_join)
  then show False using assms generated_unparsed[OF assms] by simp
qed

lemma process_path_keeps_others:
  assumes "process_path fault dry_run ds p st = Inr st'" "path_exists (fs st) q" "q \<noteq> p"
  shows "fs st' q = fs st q"
proof (rule process_path_cases[of st p fault dry_run ds])
  fix info f'
  assume w: "would_rename ds (fs st) p" and pr: "parse_filename (path_name p) = Inr (Some info)"
    and r: "os_rename fault (fs st) p (new_path_of ds p info) = Inr f'"
    and s: "process_path fault dry_run ds p st =
      Inr (st\<lparr>fs := f', total_files := total_files st + 1,
              renamed_files := renamed_files st + 1,
              out := out st @ [rename_info ds p info, Rename_ok]\<rparr>)"
  from w pr have nc: "\<not> (path_exists (fs st) (new_path_of ds p info) \<and> new_path_of ds p info \<noteq> p)"
    by (simp add: would_rename_def new_path_of_def Let_def)
  from new_path_differs[OF pr] nc have "\<not> path_exists (fs st) (new_path_of ds p info)" by simp
  with assms(2) have "q \<noteq> new_path_of ds p info" by auto
  moreover from os_rename_Inr[OF r] obtain n where
    "f' = (fs st)(p := None, new_path_of ds p info \<mapsto> n)" by auto
  ultimately have "f' q = fs st q" using assms(3) by simp
  then show ?thesis using assms(1) s by auto
qed (use assms(1) in auto)

lemma two_sources_execute:
  assumes "eligible (fs st) p1" "eligible (fs st) p2" "p1 \<noteq> p2"
    "parse_filename (path_name p1) = Inr (Some i1)" "parse_filename (path_name p2) = Inr (Some i2)"
    "new_path_of ds p1 i1 = d" "new_path_of ds p2 i2 = d"
    "\<not> path_exists (fs st) d" "fault (fs st) p1 d = None"
  shows "walk fault False ds [p1, p2] st =
    Inr (st\<lparr>fs := (fs st)(p1 := None, d := fs st p1),
            total_files := total_files st + 2, renamed_files := renamed_files st + 1,
            skipped_files := skipped_files st + 1,
            out := out st @ [rename_info ds p1 i1, Rename_ok, Skip_exists (path_name p2)]\<rparr>)"
proof -
  obtain n where n: "fs st p1 = Some n"
    using assms(1) by (auto simp: eligible_def is_file_def split: option.splits)
  define f' where "f' = (fs st)(p1 := None, d \<mapsto> n)"
  have r: "os_rename fault (fs st) p1 (new_path_of ds p1 i1) = Inr f'"
    using assms(6,9) n by (simp add: os_rename_def f'_def)
  have nc: "\<not> (path_exists (fs st) (new_path_of ds p1 i1) \<and> new_path_of ds p1 i1 \<noteq> p1)"
    using assms(6,8) by simp
  define st1 where "st1 = st\<lparr>fs := f', total_files := total_files st + 1,
     renamed_files := renamed_files st + 1, out := out st @ [rename_info ds p1 i1, Rename_ok]\<rparr>"
  have s1: "process_path fault False ds p1 st = Inr st1"
    unfolding st1_def by (rule process_path_renamed[OF assms(1,4) nc r])
  have dp2: "d \<noteq> p2" using new_path_differs[OF assms(5), of ds] assms(7) by simp
  have "f' p2 = fs st p2" using assms(3) dp2 by (simp add: f'_def)
  then have e2: "eligible (fs st1) p2" using assms(2) by (simp add: eligible_def is_file_def st1_def)
  have ex: "path_exists (fs st1) (new_path_of ds p2 i2)"
    using assms(7) by (simp add: st1_def f'_def path_exists_def)
  have s2: "process_path fault False ds p2 st1 =
      Inr (st1\<lparr>total_files := total_files st1 + 1, skipped_files := skipped_files st1 + 1,
               out := out st1 @ [Skip_exists (path_name p2)]\<rparr>)"
    using e2 assms(5) ex new_path_differs[OF assms(5)] by (rule process_path_collision)
  show ?thesis using s1 s2 n by (simp add: st1_def f'_def)
qed

lemma two_sources_dry_run:
  assumes "eligible (fs st) p1" "eligible (fs st) p2"
    "parse_filename (path_name p1) = Inr (Some i1)" "parse_filename (path_name p2) = Inr (Some i2)"
    "\<not> path_exists (fs st) (new_path_of ds p1 i1)" "\<not> path_exists (fs st) (new_path_of ds p2 i2)"
  shows "walk fault True ds [p1, p2] st =
    Inr (st\<lparr>total_files := total_files st + 2, renamed_files := renamed_files st + 2,
            out := out st @ [rename_info ds p1 i1, Preview_only,
                             rename_info ds p2 i2, Preview_only]\<rparr>)"
proof -
  define st1 where "st1 = st\<lparr>total_files := total_files st + 1,
     renamed_files := renamed_files st + 1, out := out st @ [rename_info ds p1 i1, Preview_only]\<rparr>"
  have s1: "process_path fault True ds p1 st = Inr st1"
    unfolding st1_def using assms(1,3,5) by (intro process_path_preview) simp_all
  have "eligible (fs st1) p2" "\<not> path_exists (fs st1) (new_path_of ds p2 i2)"
    using assms(2,6) by (simp_all add: st1_def)
  then have s2: "process_path fault True ds p2 st1 =
      Inr (st1\<lparr>total_files := total_files st1 + 1, renamed_files := renamed_files st1 + 1,
               out := out st1 @ [rename_info ds p2 i2, Preview_only]\<rparr>)"
    using assms(4) by (intro process_path_preview) simp_all
  show ?thesis using s1 s2 by (simp add: st1_def)
qed

lemma process_path_dry_out:
  assumes "process_path fault True ds p st = Inr st'" "\<not> list_ex is_rename_attempt (out st)"
  shows "\<not> list_ex is_rename_attempt (out st')"
  using assms
  by (rule_tac process_path_cases[of st p fault True ds])
    (auto simp: is_rename_attempt_def rename_info_def)

lemma walk_dry_out:
  assumes "walk fault True ds ps st = Inr st'" "\<not> list_ex is_rename_attempt (out st)"
  shows "\<not> list_ex is_rename_attempt (out st')"
  using assms
proof (induction ps arbitrary: st)
  case Nil
  then show ?case by simp
next
  case (Cons p ps)
  obtain st1 where s: "process_path fault True ds p st = Inr st1"
    using process_path_total by blast
  then have "\<not> list_ex is_rename_attempt (out st1)"
    using Cons.prems(2) by (rule process_path_dry_out)
  moreover have "walk fault True ds ps st1 = Inr st'" using Cons.prems(1) s by simp
  ultimately show ?case by (rule Cons.IH[rotated])
qed

lemma would_rename_iff:
  "would_rename ds f p \<longleftrightarrow>
     eligible f p \<and>
     (\<exists>info. parse_filename (path_name p) = Inr (Some info) \<and>
        \<not> (path_exists f (new_path_of ds p info) \<and> new_path_of ds p info \<noteq> p))"
  by (auto simp: would_rename_def eligible_def new_path_of_def Let_def
      split: sum.splits option.splits)



lemma run_cases:
  obtains (missing) "\<not> path_exists f folder"
      "rename_images_in_folder fault rglob f folder dry_run ds = Root_not_found"
  | (completed) st where "path_exists f folder"
      "walk fault dry_run ds rglob (initial_state f) = Inr st"
      "rename_images_in_folder fault rglob f folder dry_run ds = Completed st"
proof (cases "path_exists f folder")
  case False
  then show ?thesis using missing by (simp add: rename_images_in_folder_def)
next
  case True
  obtain st where "walk fault dry_run ds rglob (initial_state f) = Inr st"
    using walk_total by blast
  then show ?thesis using completed True by (simp add: rename_images_in_folder_def)
qed


section \<open>Properties of the renaming tool\<close>

text \<open>
  C1: if the base name of a filename (its \<open>splitext\<close> stem) starts with a non-empty
  identifier without a comma, a comma, a decimal numeral, a comma, a second decimal
  numeral and a comma, then \<open>parse_filename\<close> returns a record with \<open>is_query\<close> true, that
  identifier, the doubles denoted by the two numerals and the stripped extension,
  whatever follows the prefix.
\<close>

theorem parse_pattern_A:
  assumes "fst (splitext filename) = idt @ '','' @ n1 @ '','' @ n2 @ '','' @ rest"
    and "idt \<noteq> []" and "CHR '','' \<notin> set idt" and "is_decimal n1" and "is_decimal n2"
  shows "parse_filename filename =
    Inr (Some \<lparr>image_id = idt, lat = decimal_double n1, lon = decimal_double n2,
               is_query = True, ext = snd (splitext filename)\<rparr>)"
  using assms by (intro parse_pattern1[of filename idt n1 n2 rest]) (simp add: pattern1_shape_def)

theorem parse_pattern_A_witness:
  "fst (splitext ''abc123,37.788169,-122.400728,.jpg'')
     = ''abc123'' @ '','' @ ''37.788169'' @ '','' @ ''-122.400728'' @ '','' @ [] \<and>
   ''abc123'' \<noteq> [] \<and> CHR '','' \<notin> set ''abc123'' \<and>
   is_decimal ''37.788169'' \<and> is_decimal ''-122.400728'' \<and>
   parse_filename ''abc123,37.788169,-122.400728,.jpg'' =
     Inr (Some \<lparr>image_id = ''abc123'', lat = Finite False 5318211994606667 (- 47),
                lon = Finite True 8613185515791835 (- 46), is_query = True, ext = ''.jpg''\<rparr>)"
proof -
  have 1: "fst (splitext ''abc123,37.788169,-122.400728,.jpg'')
     = ''abc123'' @ '','' @ ''37.788169'' @ '','' @ ''-122.400728'' @ '','' @ []"
    by (simp add: name_eval)
  have 2: "''abc123'' \<noteq> []" and 3: "CHR '','' \<notin> set ''abc123''" by simp_all
  have 4: "is_decimal ''37.788169''" and 5: "is_decimal ''-122.400728''"
    by (simp_all add: name_eval)
  have 6: "snd (splitext ''abc123,37.788169,-122.400728,.jpg'') = ''.jpg''"
    by (simp add: name_eval)
  from parse_pattern_A[OF 1 2 3 4 5] 1 4 5 show ?thesis
    by (simp add: 6 decimal_double_example_lat decimal_double_example_lon)
qed

text \<open>
  C2: if the base name of a filename is exactly \<open>satellite_<lat>_<lon>\<close> with two decimal
  numerals, then \<open>parse_filename\<close> returns a record with \<open>is_query\<close> false whose identifier
  is \<open>repr(lat)\<close>, an underscore and \<open>repr(lon)\<close> with every \<open>.\<close> removed and every \<open>-\<close>
  replaced by \<open>n\<close>, so that the identifier contains neither \<open>.\<close> nor \<open>-\<close>.
\<close>

theorem parse_pattern_B:
  assumes "fst (splitext filename) = ''satellite_'' @ n1 @ ''_'' @ n2"
    and "is_decimal n1" and "is_decimal n2"
  shows "parse_filename filename =
      Inr (Some \<lparr>image_id =
                   replace_char CHR ''-'' CHR ''n''
                     (remove_char CHR ''.''
                        (float_repr (decimal_double n1) @ ''_'' @ float_repr (decimal_double n2))),
                 lat = decimal_double n1, lon = decimal_double n2,
                 is_query = False, ext = snd (splitext filename)\<rparr>) \<and>
    CHR ''.'' \<notin> set (replace_char CHR ''-'' CHR ''n''
                     (remove_char CHR ''.''
                        (float_repr (decimal_double n1) @ ''_'' @ float_repr (decimal_double n2)))) \<and>
    CHR ''-'' \<notin> set (replace_char CHR ''-'' CHR ''n''
                     (remove_char CHR ''.''
                        (float_repr (decimal_double n1) @ ''_'' @ float_repr (decimal_double n2))))"
proof -
  have "pattern2_shape (fst (splitext filename)) n1 n2 []"
    using assms by (simp add: pattern2_shape_def)
  from parse_pattern2[OF this] show ?thesis
    by (auto simp: coords_id_def replace_char_def remove_char_def)
qed

theorem parse_pattern_B_witness:
  "fst (splitext ''satellite_1.5_-2.png'') = ''satellite_'' @ ''1.5'' @ ''_'' @ ''-2'' \<and>
   is_decimal ''1.5'' \<and> is_decimal ''-2'' \<and>
   parse_filename ''satellite_1.5_-2.png'' =
     Inr (Some \<lparr>image_id = ''15_n20'', lat = Finite False 6755399441055744 (- 52),
                lon = Finite True 4503599627370496 (- 51), is_query = False, ext = ''.png''\<rparr>) \<and>
   CHR ''.'' \<notin> set ''15_n20'' \<and> CHR ''-'' \<notin> set ''15_n20''"
proof -
  have 1: "fst (splitext ''satellite_1.5_-2.png'') = ''satellite_'' @ ''1.5'' @ ''_'' @ ''-2''"
    by (simp add: name_eval)
  have 2: "is_decimal ''1.5''" and 3: "is_decimal ''-2''" by (simp_all add: name_eval)
  have 4: "snd (splitext ''satellite_1.5_-2.png'') = ''.png''" by (simp add: name_eval)
  have 5: "decimal_double ''1.5'' = Finite False 6755399441055744 (- 52)"
    by (simp add: float_eval)
  have 6: "decimal_double ''-2'' = Finite True 4503599627370496 (- 51)"
    by (simp add: float_eval)
  have 7: "float_repr (Finite False 6755399441055744 (- 52)) = ''1.5''"
    by (simp add: float_eval repr_eval)
  have 8: "float_repr (Finite True 4503599627370496 (- 51)) = ''-2.0''"
    by (simp add: float_eval repr_eval)
  from parse_pattern_B[OF 1 2 3, unfolded 4 5 6 7 8] 1 2 3 show ?thesis
    by (simp add: replace_char_def remove_char_def)
qed

text \<open>
  C3 (amended): \<open>generate_new_filename\<close> returns \<open>_\<close>, the identifier, \<open>_query\<close> for a query
  image, \<open>@\<close>, the latitude, \<open>@\<close>, the longitude, \<open>@\<close>, \<open>success\<close> or \<open>failure\<close>, and the
  extension. A finite coordinate is written with exactly six digits after the decimal
  point; an infinite one, which \<open>parse_filename\<close> returns for a numeral beyond the range
  of a double, is written \<open>inf\<close> or \<open>-inf\<close>.
\<close>

theorem generate_format:
  "generate_new_filename info ok =
     ''_'' @ image_id info @ (if is_query info then ''_query'' else []) @ ''@''
     @ format_f6 (lat info) @ ''@'' @ format_f6 (lon info) @ ''@''
     @ (if ok then ''success'' else ''failure'') @ ext info \<and>
   (is_finite x \<longrightarrow> has_six_decimals (format_f6 x)) \<and>
   format_f6 (Infinity neg) = (if neg then ''-inf'' else ''inf'')"
proof -
  have "is_finite x \<longrightarrow> has_six_decimals (format_f6 x)"
    by (cases x) (simp_all add: is_finite_def format_f6_six_decimals del: format_f6.simps)
  then show ?thesis
    by (simp add: generate_new_filename_def Let_def sign_str_def)
qed

theorem generate_format_witness:
  "decimal_double ''37.788169'' = Finite False 5318211994606667 (- 47) \<and>
   decimal_double ''-122.400728'' = Finite True 8613185515791835 (- 46) \<and>
   is_finite (Finite False 5318211994606667 (- 47)) \<and>
   has_six_decimals (format_f6 (Finite False 5318211994606667 (- 47))) \<and>
   generate_new_filename
     \<lparr>image_id = ''abc123'', lat = Finite False 5318211994606667 (- 47),
      lon = Finite True 8613185515791835 (- 46), is_query = True, ext = ''.jpg''\<rparr> True
     = ''_abc123_query@37.788169@-122.400728@success.jpg''"
proof -
  have 1: "is_finite (Finite False 5318211994606667 (- 47))" by (simp add: is_finite_def)
  have 2: "format_f6 (Finite False 5318211994606667 (- 47)) = ''37.788169''"
    by (simp add: float_eval)
  have 3: "format_f6 (Finite True 8613185515791835 (- 46)) = ''-122.400728''"
    by (simp add: float_eval)
  have g: "generate_new_filename
     \<lparr>image_id = ''abc123'', lat = Finite False 5318211994606667 (- 47),
      lon = Finite True 8613185515791835 (- 46), is_query = True, ext = ''.jpg''\<rparr> True
     = ''_abc123_query@37.788169@-122.400728@success.jpg''"
    by (simp add: generate_new_filename_def 2 3 del: format_f6.simps)
  from generate_format[of
      "\<lparr>image_id = ''abc123'', lat = Finite False 5318211994606667 (- 47),
        lon = Finite True 8613185515791835 (- 46), is_query = True, ext = ''.jpg''\<rparr>"
      True "Finite False 5318211994606667 (- 47)" False] 1 g
  show ?thesis
    by (simp add: decimal_double_example_lat decimal_double_example_lon del: format_f6.simps)
qed

text \<open>
  The claim as stated fails for a latitude of 309 digits: \<open>float\<close> returns infinity for it
  and the generated name carries \<open>inf\<close>, which has no decimals.
\<close>

theorem generate_six_decimals_counterexample:
  "parse_filename ''a,200000000000000000000000000000000000000000000000000000000000000000000000000000000000000000000000000000000000000000000000000000000000000000000000000000000000000000000000000000000000000000000000000000000000000000000000000000000000000000000000000000000000000000000000000000000000000000000000000000000000000000000,0,.jpg'' =
     Inr (Some \<lparr>image_id = ''a'', lat = Infinity False, lon = Finite False 0 0,
                is_query = True, ext = ''.jpg''\<rparr>) \<and>
   generate_new_filename
     \<lparr>image_id = ''a'', lat = Infinity False, lon = Finite False 0 0,
      is_query = True, ext = ''.jpg''\<rparr> True = ''_a_query@inf@0.000000@success.jpg'' \<and>
   \<not> has_six_decimals (format_f6 (Infinity False))"
proof -
  have 1: "splitext ''a,200000000000000000000000000000000000000000000000000000000000000000000000000000000000000000000000000000000000000000000000000000000000000000000000000000000000000000000000000000000000000000000000000000000000000000000000000000000000000000000000000000000000000000000000000000000000000000000000000000000000000000000,0,.jpg'' = (''a,200000000000000000000000000000000000000000000000000000000000000000000000000000000000000000000000000000000000000000000000000000000000000000000000000000000000000000000000000000000000000000000000000000000000000000000000000000000000000000000000000000000000000000000000000000000000000000000000000000000000000000000,0,'', ''.jpg'')"
    by (simp add: name_eval)
  have 2: "is_decimal ''200000000000000000000000000000000000000000000000000000000000000000000000000000000000000000000000000000000000000000000000000000000000000000000000000000000000000000000000000000000000000000000000000000000000000000000000000000000000000000000000000000000000000000000000000000000000000000000000000000000000000000000''" by (simp add: name_eval)
  have 3: "is_decimal ''0''" by (simp add: name_eval)
  have 4: "decimal_double ''200000000000000000000000000000000000000000000000000000000000000000000000000000000000000000000000000000000000000000000000000000000000000000000000000000000000000000000000000000000000000000000000000000000000000000000000000000000000000000000000000000000000000000000000000000000000000000000000000000000000000000000'' = Infinity False" by (simp add: float_eval)
  have 5: "decimal_double ''0'' = Finite False 0 0" by (simp add: float_eval)
  have "pattern1_shape (fst (splitext ''a,200000000000000000000000000000000000000000000000000000000000000000000000000000000000000000000000000000000000000000000000000000000000000000000000000000000000000000000000000000000000000000000000000000000000000000000000000000000000000000000000000000000000000000000000000000000000000000000000000000000000000000000,0,.jpg'')) ''a'' ''200000000000000000000000000000000000000000000000000000000000000000000000000000000000000000000000000000000000000000000000000000000000000000000000000000000000000000000000000000000000000000000000000000000000000000000000000000000000000000000000000000000000000000000000000000000000000000000000000000000000000000000'' ''0'' []"
    unfolding 1 using 2 3 by (simp add: pattern1_shape_def)
  from parse_pattern1[OF this, unfolded 1 4 5] show ?thesis
    by (simp add: generate_new_filename_def has_six_decimals_def float_eval)
qed

text \<open>
  C4: the name that \<open>generate_new_filename\<close> returns for a parsed record matches neither
  pattern, so \<open>parse_filename\<close> returns \<open>None\<close> for it, and a file that already carries
  such a name is counted as skipped and left alone by the loop.
\<close>

theorem generated_name_is_not_parsed:
  assumes "parse_filename f = Inr (Some info)"
  shows "parse_filename (generate_new_filename info ok) = Inr None \<and>
    (eligible (fs st) p \<and> path_name p = generate_new_filename info ok \<longrightarrow>
       process_path fault dry_run ds p st =
         Inr (st\<lparr>total_files := total_files st + 1, skipped_files := skipped_files st + 1,
                 out := out st @ [Skip_unparsed (path_name p)]\<rparr>))"
  using generated_unparsed[OF assms, of ok] process_path_unparsed[of st p fault dry_run ds]
  by simp

theorem generated_name_is_not_parsed_witness:
  "parse_filename ''a,1,2,.jpg'' = Inr (Some demo_info) \<and>
   generate_new_filename demo_info True = ''_a_query@1.000000@2.000000@success.jpg'' \<and>
   parse_filename ''_a_query@1.000000@2.000000@success.jpg'' = Inr None"
  using generated_name_is_not_parsed[OF parse_demo_a, of True] parse_demo_a generate_demo
  by simp



text \<open>
  C6 (amended): an eligible file whose destination exists and is another path is counted
  as skipped and not renamed, in both modes, and no step of the loop changes an entry
  other than the file it processes, so nothing that exists is overwritten. Of two source
  files with the same destination, which does not exist yet, execute mode renames the
  first (if the operating system allows it) and skips the second; dry-run mode previews
  both and counts both as renamed.
\<close>

theorem collision_is_skipped:
  "(eligible (fs st) p \<and> parse_filename (path_name p) = Inr (Some info) \<and>
    path_exists (fs st) (new_path_of ds p info) \<and> new_path_of ds p info \<noteq> p \<longrightarrow>
      process_path fault dry_run ds p st =
        Inr (st\<lparr>total_files := total_files st + 1, skipped_files := skipped_files st + 1,
                out := out st @ [Skip_exists (path_name p)]\<rparr>)) \<and>
   (process_path fault dry_run ds p st = Inr st' \<and> path_exists (fs st) q \<and> q \<noteq> p \<longrightarrow>
      fs st' q = fs st q) \<and>
   (eligible (fs st) p \<and> eligible (fs st) p2 \<and> p \<noteq> p2 \<and>
    parse_filename (path_name p) = Inr (Some info) \<and>
    parse_filename (path_name p2) = Inr (Some info2) \<and>
    new_path_of ds p2 info2 = new_path_of ds p info \<and>
    \<not> path_exists (fs st) (new_path_of ds p info) \<longrightarrow>
      (fault (fs st) p (new_path_of ds p info) = None \<longrightarrow>
         walk fault False ds [p, p2] st =
           Inr (st\<lparr>fs := (fs st)(p := None, new_path_of ds p info := fs st p),
                   total_files := total_files st + 2, renamed_files := renamed_files st + 1,
                   skipped_files := skipped_files st + 1,
                   out := out st @ [rename_info ds p info, Rename_ok,
                                    Skip_exists (path_name p2)]\<rparr>)) \<and>
      walk fault True ds [p, p2] st =
        Inr (st\<lparr>total_files := total_files st + 2, renamed_files := renamed_files st + 2,
                out := out st @ [rename_info ds p info, Preview_only,
                                 rename_info ds p2 info2, Preview_only]\<rparr>))"
proof (intro conjI impI)
  assume "eligible (fs st) p \<and> parse_filename (path_name p) = Inr (Some info) \<and>
    path_exists (fs st) (new_path_of ds p info) \<and> new_path_of ds p info \<noteq> p"
  then have "eligible (fs st) p" "parse_filename (path_name p) = Inr (Some info)"
    "path_exists (fs st) (new_path_of ds p info)" "new_path_of ds p info \<noteq> p"
    by simp_all
  then show "process_path fault dry_run ds p st =
        Inr (st\<lparr>total_files := total_files st + 1, skipped_files := skipped_files st + 1,
                out := out st @ [Skip_exists (path_name p)]\<rparr>)"
    by (rule process_path_collision)
next
  assume "process_path fault dry_run ds p st = Inr st' \<and> path_exists (fs st) q \<and> q \<noteq> p"
  then show "fs st' q = fs st q" using process_path_keeps_others by blast
next
  assume a: "eligible (fs st) p \<and> eligible (fs st) p2 \<and> p \<noteq> p2 \<and>
    parse_filename (path_name p) = Inr (Some info) \<and>
    parse_filename (path_name p2) = Inr (Some info2) \<and>
    new_path_of ds p2 info2 = new_path_of ds p info \<and>
    \<not> path_exists (fs st) (new_path_of ds p info)"
    and b: "fault (fs st) p (new_path_of ds p info) = None"
  show "walk fault False ds [p, p2] st =
           Inr (st\<lparr>fs := (fs st)(p := None, new_path_of ds p info := fs st p),
                   total_files := total_files st + 2, renamed_files := renamed_files st + 1,
                   skipped_files := skipped_files st + 1,
                   out := out st @ [rename_info ds p info, Rename_ok,
                                    Skip_exists (path_name p2)]\<rparr>)"
    by (rule two_sources_execute[where d = "new_path_of ds p info"]) (use a b in blast)+
next
  assume a: "eligible (fs st) p \<and> eligible (fs st) p2 \<and> p \<noteq> p2 \<and>
    parse_filename (path_name p) = Inr (Some info) \<and>
    parse_filename (path_name p2) = Inr (Some info2) \<and>
    new_path_of ds p2 info2 = new_path_of ds p info \<and>
    \<not> path_exists (fs st) (new_path_of ds p info)"
  show "walk fault True ds [p, p2] st =
        Inr (st\<lparr>total_files := total_files st + 2, renamed_files := renamed_files st + 2,
                out := out st @ [rename_info ds p info, Preview_only,
                                 rename_info ds p2 info2, Preview_only]\<rparr>)"
    by (rule two_sources_dry_run) (use a in auto)
qed

text \<open>
  In dry-run mode the second of two files with the same destination is previewed and
  counted as renamed, not skipped.
\<close>

theorem second_source_not_skipped_counterexample:
  "eligible demo_fs demo_a \<and> eligible demo_fs demo_b \<and> demo_a \<noteq> demo_b \<and>
   parse_filename (path_name demo_a) = Inr (Some demo_info) \<and>
   parse_filename (path_name demo_b) = Inr (Some demo_info) \<and>
   new_path_of ''success'' demo_a demo_info = new_path_of ''success'' demo_b demo_info \<and>
   final_counts (rename_images_in_folder no_fault [demo_a, demo_b] demo_fs demo_root True
                   ''success'') = Some (2, 2, 0)"
proof -
  have "walk no_fault True ''success'' [demo_a, demo_b] (initial_state demo_fs) =
    Inr ((initial_state demo_fs)\<lparr>total_files := 2, renamed_files := 2,
            out := [rename_info ''success'' demo_a demo_info, Preview_only,
                    rename_info ''success'' demo_b demo_info, Preview_only]\<rparr>)"
    using two_sources_dry_run[OF demo_initial(1,2) demo_parsed(1,2), of "''success''" no_fault]
      demo_initial(4)
    by (simp add: demo_paths(7,8) initial_state_def)
  then show ?thesis
    using demo_eligible demo_distinct demo_parsed demo_initial(5)
    by (simp add: demo_paths(7,8) rename_images_in_folder_def final_counts_def initial_state_def)
qed

theorem collision_is_skipped_witness:
  "eligible (fs (initial_state (demo_fs(demo_new \<mapsto> File 4)))) demo_b \<and>
   parse_filename (path_name demo_b) = Inr (Some demo_info) \<and>
   path_exists (fs (initial_state (demo_fs(demo_new \<mapsto> File 4))))
     (new_path_of ''success'' demo_b demo_info) \<and>
   new_path_of ''success'' demo_b demo_info \<noteq> demo_b \<and>
   process_path no_fault False ''success'' demo_b (initial_state (demo_fs(demo_new \<mapsto> File 4))) =
     Inr ((initial_state (demo_fs(demo_new \<mapsto> File 4)))\<lparr>total_files := 1, skipped_files := 1,
            out := [Skip_exists (path_name demo_b)]\<rparr>) \<and>
   eligible (fs (initial_state demo_fs)) demo_a \<and> eligible (fs (initial_state demo_fs)) demo_b \<and>
   demo_a \<noteq> demo_b \<and> parse_filename (path_name demo_a) = Inr (Some demo_info) \<and>
   new_path_of ''success'' demo_b demo_info = new_path_of ''success'' demo_a demo_info \<and>
   \<not> path_exists (fs (initial_state demo_fs)) (new_path_of ''success'' demo_a demo_info) \<and>
   no_fault (fs (initial_state demo_fs)) demo_a (new_path_of ''success'' demo_a demo_info) = None \<and>
   final_counts (case walk no_fault False ''success'' [demo_a, demo_b] (initial_state demo_fs) of
                   Inl exn \<Rightarrow> Raised exn | Inr st \<Rightarrow> Completed st) = Some (2, 1, 1) \<and>
   final_counts (case walk no_fault True ''success'' [demo_a, demo_b] (initial_state demo_fs) of
                   Inl exn \<Rightarrow> Raised exn | Inr st \<Rightarrow> Completed st) = Some (2, 2, 0)"
proof -
  let ?st4 = "initial_state (demo_fs(demo_new \<mapsto> File 4))"
  let ?st0 = "initial_state demo_fs"
  have 1: "eligible (fs ?st4) demo_b"
    using demo_eligible(2) demo_distinct by (simp add: eligible_def is_file_def initial_state_def)
  have 2: "path_exists (fs ?st4) (new_path_of ''success'' demo_b demo_info)"
    by (simp add: demo_paths(7,8) path_exists_def initial_state_def)
  have 3: "new_path_of ''success'' demo_b demo_info \<noteq> demo_b"
    using demo_distinct by (simp add: demo_paths(7,8))
  have 4: "new_path_of ''success'' demo_b demo_info = new_path_of ''success'' demo_a demo_info"
    by (simp add: demo_paths(7,8))
  have 5: "\<not> path_exists (fs ?st0) (new_path_of ''success'' demo_a demo_info)"
    using demo_initial(4) by (simp add: demo_paths(7,8))
  have 6: "no_fault (fs ?st0) demo_a (new_path_of ''success'' demo_a demo_info) = None"
    by (simp add: no_fault_def)
  note t4 = collision_is_skipped[of ?st4 demo_b demo_info "''success''" no_fault False]
  note t0 = collision_is_skipped[of ?st0 demo_a demo_info "''success''" no_fault _ _ _ demo_b
      demo_info]
  from t4 1 2 3 demo_parsed(2)
  have a: "process_path no_fault False ''success'' demo_b ?st4 =
     Inr (?st4\<lparr>total_files := 1, skipped_files := 1, out := [Skip_exists (path_name demo_b)]\<rparr>)"
    by (simp add: initial_state_def)
  from t0 demo_initial(1,2) demo_distinct(1) demo_parsed(1,2) 4 5 6
  have b: "walk no_fault False ''success'' [demo_a, demo_b] ?st0 =
           Inr (?st0\<lparr>fs := (fs ?st0)(demo_a := None,
                     new_path_of ''success'' demo_a demo_info := fs ?st0 demo_a),
                   total_files := total_files ?st0 + 2, renamed_files := renamed_files ?st0 + 1,
                   skipped_files := skipped_files ?st0 + 1,
                   out := out ?st0 @ [rename_info ''success'' demo_a demo_info, Rename_ok,
                                    Skip_exists (path_name demo_b)]\<rparr>)"
    and c: "walk no_fault True ''success'' [demo_a, demo_b] ?st0 =
        Inr (?st0\<lparr>total_files := total_files ?st0 + 2, renamed_files := renamed_files ?st0 + 2,
                out := out ?st0 @ [rename_info ''success'' demo_a demo_info, Preview_only,
                                 rename_info ''success'' demo_b demo_info, Preview_only]\<rparr>)"
    by blast+
  show ?thesis
    unfolding b c using a 1 2 3 4 5 6 demo_initial(1,2) demo_distinct(1) demo_parsed(1,2)
    by (simp add: final_counts_def initial_state_def)
qed

text \<open>
  C7: a dry run on an existing folder leaves the filesystem as it was and attempts no
  rename, while \<open>renamed_files\<close> counts every listed file that passes the eligibility,
  parse and collision checks.
\<close>

theorem dry_run_changes_nothing:
  assumes "path_exists f folder"
  shows "\<exists>st. rename_images_in_folder fault rglob f folder True default_status = Completed st \<and>
    fs st = f \<and> \<not> list_ex is_rename_attempt (out st) \<and>
    renamed_files st = length (filter (would_rename default_status f) rglob)"
proof (rule run_cases[of f folder fault rglob True default_status])
  fix st
  assume w: "walk fault True default_status rglob (initial_state f) = Inr st"
    and r: "rename_images_in_folder fault rglob f folder True default_status = Completed st"
  from walk_dry[OF w] have "fs st = f"
    "renamed_files st = length (filter (would_rename default_status f) rglob)"
    by (simp_all add: initial_state_def)
  moreover have "\<not> list_ex is_rename_attempt (out st)"
    using w by (rule walk_dry_out) (simp add: initial_state_def)
  ultimately show ?thesis using r by blast
qed (use assms in simp)

theorem dry_run_changes_nothing_witness:
  "path_exists demo_fs demo_root \<and>
   (\<exists>st. rename_images_in_folder deny_all [demo_a, demo_b, demo_c] demo_fs demo_root True
            ''success'' = Completed st \<and>
         fs st = demo_fs \<and> \<not> list_ex is_rename_attempt (out st) \<and> renamed_files st = 2)"
proof -
  have a: "would_rename ''success'' demo_fs demo_a" "would_rename ''success'' demo_fs demo_b"
    "\<not> would_rename ''success'' demo_fs demo_c"
    using demo_eligible
    by (simp_all add: would_rename_iff demo_parsed demo_paths(7,8) path_exists_def demo_fs_at)
  from dry_run_changes_nothing[OF demo_initial(5), of deny_all "[demo_a, demo_b, demo_c]" "''success''"]
    a demo_initial(5)
  show ?thesis by (simp add: numeral_2_eq_2)
qed



text \<open>
  C9: every string that the patterns accept as \<open><lat>\<close> or \<open><lon>\<close> (an optional \<open>-\<close>, one or
  more digits, an optional \<open>.\<close>, zero or more digits), in particular every text captured
  by a number group of either pattern, is converted by \<open>float\<close> without an exception, to
  the double nearest to the numeral; hence \<open>parse_filename\<close> never raises.
\<close>

theorem float_total_on_pattern_numbers:
  assumes "is_decimal w
      \<or> (re_match pattern1 s = Some m \<and> (w = group_of m 2 \<or> w = group_of m 3))
      \<or> (re_match pattern2 s = Some m \<and> (w = group_of m 1 \<or> w = group_of m 2))"
  shows "py_float w = Inr (decimal_double w) \<and> parse_filename f \<noteq> Inl exn"
proof -
  have "is_decimal w"
    using assms re_match_pattern1_Some[of s m] re_match_pattern2_Some[of s m]
    by (auto simp: group_of_def pattern1_shape_def pattern2_shape_def)
  then show ?thesis by (simp add: py_float_decimal parse_filename_no_exception)
qed

theorem float_total_on_pattern_numbers_witness:
  "re_match pattern1 ''a,1,2,'' = Some [''a'', ''1'', ''2''] \<and>
   ''2'' = group_of [''a'', ''1'', ''2''] 3 \<and>
   py_float ''2'' = Inr (Finite False 4503599627370496 (- 51)) \<and>
   parse_filename ''a,1,2,.jpg'' \<noteq> Inl ValueError"
proof -
  have a: "re_match pattern1 ''a,1,2,'' = Some [''a'', ''1'', ''2'']"
    by (simp add: re_match_def pattern1_def number_atoms_def is_digit_def)
  have b: "''2'' = group_of [''a'', ''1'', ''2''] 3" by (simp add: group_of_def)
  from a b have "is_decimal ''2''
      \<or> (re_match pattern1 ''a,1,2,'' = Some [''a'', ''1'', ''2''] \<and>
         (''2'' = group_of [''a'', ''1'', ''2''] 2 \<or> ''2'' = group_of [''a'', ''1'', ''2''] 3))
      \<or> (re_match pattern2 ''a,1,2,'' = Some [''a'', ''1'', ''2''] \<and>
         (''2'' = group_of [''a'', ''1'', ''2''] 1 \<or> ''2'' = group_of [''a'', ''1'', ''2''] 2))"
    by blast
  from float_total_on_pattern_numbers[OF this, of "''a,1,2,.jpg''" ValueError] a b
  show ?thesis by (simp add: decimal_double_2)
qed

text \<open>
  C10: no base name matches both patterns, and \<open>parse_filename\<close> returns the same result
  when the two patterns are tried in the other order.
\<close>

theorem patterns_mutually_exclusive:
  "(re_match pattern1 s = None \<or> re_match pattern2 s = None) \<and>
   parse_filename_B_first f = parse_filename f"
proof -
  have ex: "re_match pattern1 t = None \<or> re_match pattern2 t = None" for t
  proof (cases "re_match pattern2 t")
    case None
    then show ?thesis by simp
  next
    case (Some m)
    from re_match_pattern2_Some[OF this] obtain n1 n2 nl where "pattern2_shape t n1 n2 nl"
      by blast
    then have "re_match pattern1 t = None"
      using pattern2_shape_no_comma re_match_pattern1_comma by blast
    then show ?thesis by simp
  qed
  have "parse_filename_B_first f = parse_filename f"
    using ex[of "fst (splitext f)"]
    by (auto simp: parse_filename_B_first_def parse_filename_def Let_def split: option.splits)
  with ex[of s] show ?thesis by simp
qed

theorem patterns_mutually_exclusive_witness:
  "re_match pattern1 ''satellite_1_2'' = None \<and>
   re_match pattern2 ''a,1,2,'' = None \<and>
   parse_filename_B_first ''a,1,2,.jpg'' = Inr (Some demo_info)"
proof -
  have a: "re_match pattern2 ''satellite_1_2'' = Some [''1'', ''2'']"
    by (simp add: re_match_def pattern2_def lits_def number_atoms_def is_digit_def)
  have b: "re_match pattern1 ''a,1,2,'' = Some [''a'', ''1'', ''2'']"
    by (simp add: re_match_def pattern1_def number_atoms_def is_digit_def)
  from patterns_mutually_exclusive[of "''satellite_1_2''" "''a,1,2,.jpg''"]
    patterns_mutually_exclusive[of "''a,1,2,''" "''a,1,2,.jpg''"] a b
  show ?thesis by (simp add: parse_demo_a)
qed

end
